theory Spec2Isabelle
  imports Complex_Main "HOL-Library.AList"
begin

section \<open>Exceptions\<close>

text \<open>
  The pipeline code raises \<^verbatim>\<open>ValueError\<close> and \<^verbatim>\<open>PipelineStageError\<close>; a dictionary
  lookup may raise \<^verbatim>\<open>KeyError\<close>, the lookup of a name that the module does not bind
  \<^verbatim>\<open>NameError\<close>; stage callables may raise any other instance of
  \<^verbatim>\<open>Exception\<close>, kept as its class name and its \<^verbatim>\<open>str()\<close>.
  \<^verbatim>\<open>PipelineStageError\<close> is only ever raised inside an \<^verbatim>\<open>except\<close> block, so it
  carries the exception being handled there (Python's implicit \<^verbatim>\<open>__context__\<close>).
  A raise is the \<open>Inl\<close> branch of a sum, a return the \<open>Inr\<close> branch.
  Exceptions outside the class \<^verbatim>\<open>Exception\<close> (a keyboard interrupt, an exit of the
  interpreter, the cancellation of a task) are not failures of a stage and have no value
  here; neither has the interpreter's recursion limit.
\<close>

datatype exn =
    ValueError string
  | KeyError string
  | NameError string
  | PipelineStageError string exn
  | OtherException string string

fun str :: "exn \<Rightarrow> string" where
  "str (ValueError msg) = msg"
| "str (KeyError k) = k"
| "str (NameError n) = ''name '' @ [CHR 0x27] @ n @ [CHR 0x27] @ '' is not defined''"
| "str (PipelineStageError msg ctx) = msg"
| "str (OtherException cls msg) = msg"

section \<open>Pipeline stages and their executor (stages.py)\<close>

text \<open>
  \<^verbatim>\<open>PipelineStage\<close> is a dataclass of a name, three callables and a configuration.
  The callables are opaque to the pipeline: each is a function that returns or raises.
\<close>

record ('d, 'c) PipelineStage =
  name :: string
  processor :: "'d \<Rightarrow> exn + 'd"
  validator :: "'d \<Rightarrow> exn + bool"
  recovery :: "('d \<Rightarrow> 'c \<Rightarrow> exn + 'd) option"
  config :: "(string \<times> string) list option"

text \<open>
  The calls that \<^verbatim>\<open>StageExecutor.execute\<close> makes to the callables of a stage are
  its only effects; they are logged, in order, with the stage name and the arguments.
\<close>

datatype ('d, 'c) call =
    ProcessorCall string 'd
  | ValidatorCall string 'd
  | RecoveryCall string 'd 'c

text \<open>The body of the \<^verbatim>\<open>try\<close> block of \<^verbatim>\<open>execute\<close>.\<close>

definition execute_try ::
  "('d, 'c) PipelineStage \<Rightarrow> 'd \<Rightarrow> 'c \<Rightarrow> ('d, 'c) call list \<times> (exn + 'd)" where
  "execute_try stage data context =
     (case processor stage data of
        Inl e \<Rightarrow> ([ProcessorCall (name stage) data], Inl e)
      | Inr result \<Rightarrow>
          (case validator stage result of
             Inl e \<Rightarrow> ([ProcessorCall (name stage) data, ValidatorCall (name stage) result], Inl e)
           | Inr valid \<Rightarrow>
               if \<not> valid then
                 (case recovery stage of
                    Some recover \<Rightarrow>
                      ([ProcessorCall (name stage) data, ValidatorCall (name stage) result,
                        RecoveryCall (name stage) result context],
                       recover result context)
                  | None \<Rightarrow>
                      ([ProcessorCall (name stage) data, ValidatorCall (name stage) result],
                       Inl (ValueError (''Stage '' @ name stage @ '' validation failed''))))
               else ([ProcessorCall (name stage) data, ValidatorCall (name stage) result],
                     Inr result)))"

text \<open>\<^verbatim>\<open>execute\<close>: the \<^verbatim>\<open>try\<close> block under its \<^verbatim>\<open>except Exception as e\<close> handler.\<close>

definition execute ::
  "('d, 'c) PipelineStage \<Rightarrow> 'd \<Rightarrow> 'c \<Rightarrow> ('d, 'c) call list \<times> (exn + 'd)" where
  "execute stage data context =
     (case execute_try stage data context of
        (calls, Inl e) \<Rightarrow>
          (calls, Inl (PipelineStageError (''Stage '' @ name stage @ '' failed: '' @ str e) e))
      | (calls, Inr result) \<Rightarrow> (calls, Inr result))"

section \<open>The stage manager (stages.py)\<close>

text \<open>
  \<^verbatim>\<open>self.stages\<close> is a dict, iterated in insertion order: an association list in
  which assigning to an existing key keeps the key's position (\<open>AList.update\<close>).
  \<^verbatim>\<open>self.dependencies\<close> is only ever looked up: a map.
\<close>

record ('d, 'c) StageManager =
  stages :: "(string \<times> ('d, 'c) PipelineStage) list"
  dependencies :: "string \<rightharpoonup> string list"

definition init_manager :: "('d, 'c) StageManager" where
  "init_manager = \<lparr>stages = [], dependencies = Map.empty\<rparr>"

text \<open>
  \<^verbatim>\<open>register_stage\<close> has no failing branch. The dependency list is stored only
  when it is truthy (neither \<^verbatim>\<open>None\<close> nor empty).
\<close>

definition register_stage ::
  "('d, 'c) StageManager \<Rightarrow> ('d, 'c) PipelineStage \<Rightarrow> string list option
     \<Rightarrow> ('d, 'c) StageManager" where
  "register_stage m stage deps =
     (let m' = m\<lparr>stages := AList.update (name stage) stage (stages m)\<rparr>
      in case deps of
           None \<Rightarrow> m'
         | Some ds \<Rightarrow>
             if ds \<noteq> [] then m'\<lparr>dependencies := (dependencies m')(name stage \<mapsto> ds)\<rparr>
             else m')"

definition stage_names :: "('d, 'c) StageManager \<Rightarrow> string list" where
  "stage_names m = map fst (stages m)"

text \<open>\<^verbatim>\<open>self.dependencies.get(stage_name, [])\<close>\<close>

definition deps_get :: "('d, 'c) StageManager \<Rightarrow> string \<Rightarrow> string list" where
  "deps_get m stage_name = (case dependencies m stage_name of None \<Rightarrow> [] | Some ds \<Rightarrow> ds)"

text \<open>
  The closure \<^verbatim>\<open>visit\<close> of \<^verbatim>\<open>get_execution_order\<close> mutates the set \<^verbatim>\<open>visited\<close>
  and the list \<^verbatim>\<open>order\<close>; both are passed and returned. \<open>visit_deps\<close> is its
  \<^verbatim>\<open>for dep in ...\<close> loop.
\<close>

type_synonym visit_state = "string set \<times> string list"

function visit ::
    "('d, 'c) StageManager \<Rightarrow> string \<Rightarrow> visit_state \<Rightarrow> exn + visit_state"
  and visit_deps ::
    "('d, 'c) StageManager \<Rightarrow> string list \<Rightarrow> visit_state \<Rightarrow> exn + visit_state"
where
  "visit m stage_name (visited, order) =
     (if stage_name \<in> visited then Inr (visited, order)
      else case visit_deps m (deps_get m stage_name) (insert stage_name visited, order) of
             Inl e \<Rightarrow> Inl e
           | Inr (visited', order') \<Rightarrow> Inr (visited', order' @ [stage_name]))"
| "visit_deps m [] st = Inr st"
| "visit_deps m (dep # rest) st =
     (if dep \<notin> set (stage_names m) then Inl (ValueError (''Unknown dependency: '' @ dep))
      else case visit m dep st of
             Inl e \<Rightarrow> Inl e
           | Inr st' \<Rightarrow> visit_deps m rest st')"
  by pat_completeness auto

text \<open>
  The loop continues in the state the nested call returns, so termination needs a fact
  about that state first: a visit never removes a name from \<^verbatim>\<open>visited\<close>.
\<close>

lemma visit_mono_dom:
  "visit_visit_deps_dom (Inl (m, s, st)) \<Longrightarrow> visit m s st = Inr st' \<Longrightarrow> fst st \<subseteq> fst st'"
  "visit_visit_deps_dom (Inr (m, ds, st)) \<Longrightarrow> visit_deps m ds st = Inr st'' \<Longrightarrow> fst st \<subseteq> fst st''"
proof (induction m s st and m ds st arbitrary: st' and st'' rule: visit_visit_deps.pinduct)
  case (1 m stage_name visited order)
  show ?case
  proof (cases "stage_name \<in> visited")
    case True
    with 1(1,3) show ?thesis by (simp add: visit.psimps)
  next
    case False
    with 1(1,3) obtain v' o' where
      vd: "visit_deps m (deps_get m stage_name) (insert stage_name visited, order) = Inr (v', o')"
      and st': "st' = (v', o' @ [stage_name])"
      by (simp add: visit.psimps split: sum.splits prod.splits)
    from 1(2)[OF False vd] st' show ?thesis by simp
  qed
next
  case (2 m st)
  then show ?case by (simp add: visit_deps.psimps)
next
  case (3 m dep rest st)
  from 3(1,4) have reg: "\<not> dep \<notin> set (stage_names m)"
    by (simp add: visit_deps.psimps split: if_splits)
  with 3(1,4) obtain b where v: "visit m dep st = Inr b" and r: "visit_deps m rest b = Inr st''"
    by (simp add: visit_deps.psimps split: sum.splits)
  from 3(2)[OF reg v] 3(3)[OF reg v r] show ?case by simp
qed

termination visit
proof (relation "inv_image (less_than <*lex*> less_than)
    (\<lambda>x. case x of
        Inl (m, s, st) \<Rightarrow> (card (insert s (set (stage_names m)) - fst st), 0)
      | Inr (m, ds, st) \<Rightarrow> (card (set (stage_names m) - fst st), Suc (length ds)))", goal_cases)
  case 1
  show ?case by (intro wf_inv_image wf_lex_prod wf_less_than)
next
  case (2 m stage_name visited order)
  have "card (set (stage_names m) - insert stage_name visited)
          < card (insert stage_name (set (stage_names m)) - visited)"
    using 2 by (intro psubset_card_mono) auto
  then show ?case by simp
next
  case (3 m dep rest st)
  then have "insert dep (set (stage_names m)) = set (stage_names m)" by auto
  then show ?case by simp
next
  case (4 m dep rest st st')
  have "fst st \<subseteq> fst st'" using visit_mono_dom(1)[OF 4(3)] 4(2) by simp
  then have "card (set (stage_names m) - fst st') \<le> card (set (stage_names m) - fst st)"
    by (intro card_mono) auto
  then show ?case by auto
qed

declare visit.simps [simp del]

text \<open>The loop \<^verbatim>\<open>for stage_name in self.stages: visit(stage_name)\<close>.\<close>

fun visit_all ::
  "('d, 'c) StageManager \<Rightarrow> string list \<Rightarrow> visit_state \<Rightarrow> exn + visit_state" where
  "visit_all m [] st = Inr st"
| "visit_all m (stage_name # rest) st =
     (case visit m stage_name st of
        Inl e \<Rightarrow> Inl e
      | Inr st' \<Rightarrow> visit_all m rest st')"

definition get_execution_order :: "('d, 'c) StageManager \<Rightarrow> exn + string list" where
  "get_execution_order m =
     (case visit_all m (stage_names m) ({}, []) of
        Inl e \<Rightarrow> Inl e
      | Inr (visited, order) \<Rightarrow> Inr order)"

text \<open>
  \<^verbatim>\<open>execute_stages\<close> computes the order in the header of its loop, before the first
  stage runs, then threads the data through one executor per stage.
\<close>

fun run_stages ::
  "('d, 'c) StageManager \<Rightarrow> string list \<Rightarrow> 'd \<Rightarrow> 'c \<Rightarrow> ('d, 'c) call list \<times> (exn + 'd)" where
  "run_stages m [] result context = ([], Inr result)"
| "run_stages m (stage_name # rest) result context =
     (case map_of (stages m) stage_name of
        None \<Rightarrow> ([], Inl (KeyError stage_name))
      | Some stage \<Rightarrow>
          (case execute stage result context of
             (calls, Inl e) \<Rightarrow> (calls, Inl e)
           | (calls, Inr result') \<Rightarrow>
               (case run_stages m rest result' context of
                  (calls', outcome) \<Rightarrow> (calls @ calls', outcome))))"

definition execute_stages ::
  "('d, 'c) StageManager \<Rightarrow> 'd \<Rightarrow> 'c \<Rightarrow> ('d, 'c) call list \<times> (exn + 'd)" where
  "execute_stages m data context =
     (case get_execution_order m of
        Inl e \<Rightarrow> ([], Inl e)
      | Inr order \<Rightarrow> run_stages m order data context)"


section \<open>Properties of a manager state\<close>

text \<open>Every prerequisite declared by a registered stage is itself registered.\<close>

definition all_registered :: "('d, 'c) StageManager \<Rightarrow> bool" where
  "all_registered m \<longleftrightarrow>
     (\<forall>s \<in> set (stage_names m). \<forall>d \<in> set (deps_get m s). d \<in> set (stage_names m))"

text \<open>The dependency graph: an edge from each registered stage to each of its prerequisites.\<close>

definition dep_edges :: "('d, 'c) StageManager \<Rightarrow> (string \<times> string) set" where
  "dep_edges m = set (concat (map (\<lambda>s. map (Pair s) (deps_get m s)) (stage_names m)))"

text \<open>\<open>d\<close> occurs in \<open>order\<close> strictly before the first occurrence of \<open>s\<close>.\<close>

definition precedes :: "string \<Rightarrow> string \<Rightarrow> string list \<Rightarrow> bool" where
  "precedes d s order \<longleftrightarrow> d \<in> set (takeWhile (\<lambda>x. x \<noteq> s) order)"

definition respects_deps :: "('d, 'c) StageManager \<Rightarrow> string list \<Rightarrow> bool" where
  "respects_deps m order \<longleftrightarrow>
     (\<forall>s \<in> set order. \<forall>d \<in> set (deps_get m s). precedes d s order)"

text \<open>A sequence of \<^verbatim>\<open>register_stage\<close> calls, and what the order depends on in each.\<close>

definition register_all ::
  "('d, 'c) StageManager \<Rightarrow> (('d, 'c) PipelineStage \<times> string list option) list
     \<Rightarrow> ('d, 'c) StageManager" where
  "register_all m regs = foldl (\<lambda>m (stage, deps). register_stage m stage deps) m regs"

definition registration_key ::
  "('d, 'c) PipelineStage \<times> string list option \<Rightarrow> string \<times> string list option" where
  "registration_key r = (name (fst r), snd r)"

text \<open>
  The exception of \<^verbatim>\<open>visit\<close>: its message names an unregistered prerequisite of a
  registered stage.
\<close>

definition unknown_dependency_error :: "('d, 'c) StageManager \<Rightarrow> exn \<Rightarrow> bool" where
  "unknown_dependency_error m e \<longleftrightarrow>
     (\<exists>s \<in> set (stage_names m). \<exists>d \<in> set (deps_get m s).
        d \<notin> set (stage_names m) \<and> e = ValueError (''Unknown dependency: '' @ d))"

text \<open>
  Invariants of the traversal: finished stages are visited and listed once, and a visit
  leaves the set of stages in progress (visited, not yet listed) as it found it.
\<close>

definition state_ok :: "visit_state \<Rightarrow> bool" where
  "state_ok st \<longleftrightarrow> set (snd st) \<subseteq> fst st \<and> distinct (snd st)"

definition step_ok :: "visit_state \<Rightarrow> visit_state \<Rightarrow> bool" where
  "step_ok st st' \<longleftrightarrow>
     (\<exists>new. snd st' = snd st @ new) \<and> fst st \<subseteq> fst st' \<and>
     set (snd st') \<subseteq> fst st' \<and> distinct (snd st') \<and>
     fst st' - set (snd st') = fst st - set (snd st)"

section \<open>Batches and checkpoints (enhanced_pipeline.py)\<close>

text \<open>
  \<^verbatim>\<open>range(start, stop, step)\<close>: counting up for a positive step, down for a negative
  one, and a \<^verbatim>\<open>ValueError\<close> for step zero.
\<close>

function range_up :: "int \<Rightarrow> int \<Rightarrow> int \<Rightarrow> int list" where
  "range_up i stop step =
     (if 0 < step \<and> i < stop then i # range_up (i + step) stop step else [])"
  by pat_completeness auto
termination
  by (relation "measure (\<lambda>(i, stop, step). nat (stop - i))") auto

function range_down :: "int \<Rightarrow> int \<Rightarrow> int \<Rightarrow> int list" where
  "range_down i stop step =
     (if step < 0 \<and> stop < i then i # range_down (i + step) stop step else [])"
  by pat_completeness auto
termination
  by (relation "measure (\<lambda>(i, stop, step). nat (i - stop))") auto

declare range_up.simps [simp del] range_down.simps [simp del]

definition py_range :: "int \<Rightarrow> int \<Rightarrow> int \<Rightarrow> exn + int list" where
  "py_range start stop step =
     (if step = 0 then Inl (ValueError ''range() arg 3 must not be zero'')
      else if 0 < step then Inr (range_up start stop step)
      else Inr (range_down start stop step))"

text \<open>
  \<^verbatim>\<open>xs[i:j]\<close>: a negative index counts from the end, and both ends are clamped to
  the list (\<open>nat\<close> clamps below, \<open>take\<close> and \<open>drop\<close> above).
\<close>

definition py_slice :: "'a list \<Rightarrow> int \<Rightarrow> int \<Rightarrow> 'a list" where
  "py_slice xs i j =
     (let n = int (length xs);
          lo = (if i < 0 then i + n else i);
          hi = (if j < 0 then j + n else j)
      in drop (nat lo) (take (nat hi) xs))"

text \<open>The list comprehension that builds \<^verbatim>\<open>batches\<close> in \<^verbatim>\<open>process_batch\<close>.\<close>

definition make_batches :: "'t list \<Rightarrow> int \<Rightarrow> exn + 't list list" where
  "make_batches texts batch_size =
     (case py_range 0 (int (length texts)) batch_size of
        Inl e \<Rightarrow> Inl e
      | Inr starts \<Rightarrow> Inr (map (\<lambda>i. py_slice texts i (i + batch_size)) starts))"

text \<open>The batches from the start index \<open>k\<close> on.\<close>

definition batches_from :: "'t list \<Rightarrow> int \<Rightarrow> int \<Rightarrow> 't list list" where
  "batches_from xs B k = map (\<lambda>i. py_slice xs i (i + B)) (range_up k (int (length xs)) B)"

text \<open>The decimal text of an integer, as an f-string formats \<^verbatim>\<open>batch_idx\<close>.\<close>

definition digit :: "nat \<Rightarrow> char" where
  "digit d = ''0123456789'' ! d"

fun str_nat :: "nat \<Rightarrow> string" where
  "str_nat n = (if n < 10 then [digit n] else str_nat (n div 10) @ [digit (n mod 10)])"

declare str_nat.simps [simp del]

definition str_int :: "int \<Rightarrow> string" where
  "str_int i = (if i < 0 then CHR ''-'' # str_nat (nat (- i)) else str_nat (nat i))"

text \<open>
  \<^verbatim>\<open>checkpoint_dir\<close> is an optional string: an f-string formats \<^verbatim>\<open>None\<close> as
  the text None, and \<^verbatim>\<open>if self.checkpoint_dir\<close> holds for a non-empty string only.
\<close>

definition format_optional :: "string option \<Rightarrow> string" where
  "format_optional v = (case v of None \<Rightarrow> ''None'' | Some s \<Rightarrow> s)"

definition truthy :: "string option \<Rightarrow> bool" where
  "truthy v = (case v of None \<Rightarrow> False | Some s \<Rightarrow> s \<noteq> [])"

text \<open>
  The names bound at module level in \<^verbatim>\<open>enhanced_pipeline.py\<close>: those of its import
  statements and its classes. Neither \<^verbatim>\<open>pickle\<close> nor \<^verbatim>\<open>os\<close> is among them, and
  neither is a builtin, so looking either up raises \<^verbatim>\<open>NameError\<close>.
\<close>

definition module_names :: "string list" where
  "module_names =
     [''asyncio'', ''logging'', ''Dict'', ''List'', ''Optional'', ''Union'', ''Any'',
      ''datetime'', ''dataclass'', ''ArabicProcessor'', ''FrameDetector'', ''CulturalAnalyzer'',
      ''NarrativeStructure'', ''ProcessedText'', ''Frame'', ''CulturalElement'', ''Validator'',
      ''Optimizer'', ''ErrorHandler'', ''PipelineStats'', ''EnhancedPipeline'', ''np'',
      ''TextProcessor'', ''FrameProcessor'', ''CulturalProcessor'']"

definition lookup_global :: "string \<Rightarrow> exn + unit" where
  "lookup_global n = (if n \<in> set module_names then Inr () else Inl (NameError n))"

text \<open>
  The checkpoint files: a map from path to content. A file is empty, as
  \<^verbatim>\<open>open(path, 'wb')\<close> leaves it, or holds a pickled result list; pickling is taken
  to round-trip the list, and opening a path for writing to succeed.
\<close>

datatype 'r file_content = Empty_file | Pickle "'r list"

type_synonym 'r files = "string \<rightharpoonup> 'r file_content"

definition checkpoint_path :: "string option \<Rightarrow> int \<Rightarrow> string" where
  "checkpoint_path dir batch_idx =
     format_optional dir @ ''/checkpoint_'' @ str_int batch_idx @ ''.pkl''"

text \<open>
  \<^verbatim>\<open>_save_checkpoint\<close>: the \<^verbatim>\<open>with open(...)\<close> creates or truncates the file,
  then the body looks \<^verbatim>\<open>pickle\<close> up and dumps the list.
\<close>

definition save_checkpoint ::
  "string option \<Rightarrow> int \<Rightarrow> 'r list \<Rightarrow> 'r files \<Rightarrow> 'r files \<times> (exn + unit)" where
  "save_checkpoint dir batch_idx results fs =
     (let path = checkpoint_path dir batch_idx;
          opened = fs(path \<mapsto> Empty_file)
      in case lookup_global ''pickle'' of
           Inl e \<Rightarrow> (opened, Inl e)
         | Inr _ \<Rightarrow> (opened(path \<mapsto> Pickle results), Inr ()))"

text \<open>
  \<^verbatim>\<open>_load_checkpoint\<close>: it looks \<^verbatim>\<open>os\<close> up to test whether the file exists, then
  opens it and looks \<^verbatim>\<open>pickle\<close> up to load it (an empty file does not unpickle);
  without the file it returns \<^verbatim>\<open>None\<close>.
\<close>

definition load_checkpoint :: "string option \<Rightarrow> int \<Rightarrow> 'r files \<Rightarrow> exn + 'r list option" where
  "load_checkpoint dir batch_idx fs =
     (let path = checkpoint_path dir batch_idx
      in case lookup_global ''os'' of
           Inl e \<Rightarrow> Inl e
         | Inr _ \<Rightarrow>
             (case fs path of
                Some content \<Rightarrow>
                  (case lookup_global ''pickle'' of
                     Inl e \<Rightarrow> Inl e
                   | Inr _ \<Rightarrow>
                       (case content of
                          Pickle results \<Rightarrow> Inr (Some results)
                        | Empty_file \<Rightarrow> Inl (OtherException ''EOFError'' ''Ran out of input'')))
              | None \<Rightarrow> Inr None))"

text \<open>
  \<^verbatim>\<open>asyncio.gather\<close> without \<^verbatim>\<open>return_exceptions\<close>: the results in the order of
  the awaitables when all of them return; otherwise the exception of the awaitable that
  fails first in time propagates. Which one that is depends on scheduling; the
  parameter \<open>first_to_fail\<close> selects it among the failures.
\<close>

fun failures :: "(exn + 'r) list \<Rightarrow> exn list" where
  "failures [] = []"
| "failures (Inl e # rest) = e # failures rest"
| "failures (Inr r # rest) = failures rest"

fun returned :: "(exn + 'r) list \<Rightarrow> 'r list" where
  "returned [] = []"
| "returned (Inl e # rest) = returned rest"
| "returned (Inr r # rest) = r # returned rest"

definition gather :: "(exn list \<Rightarrow> nat) \<Rightarrow> (exn + 'r) list \<Rightarrow> exn + 'r list" where
  "gather first_to_fail outcomes =
     (if failures outcomes = [] then Inr (returned outcomes)
      else Inl (failures outcomes ! (first_to_fail (failures outcomes) mod length (failures outcomes))))"

text \<open>The sequential branch: the first failing item, in list order, propagates.\<close>

fun run_sequential :: "('t \<Rightarrow> exn + 'r) \<Rightarrow> 't list \<Rightarrow> 'r list \<Rightarrow> exn + 'r list" where
  "run_sequential process_text [] batch_results = Inr batch_results"
| "run_sequential process_text (text # rest) batch_results =
     (case process_text text of
        Inl e \<Rightarrow> Inl e
      | Inr result \<Rightarrow> run_sequential process_text rest (batch_results @ [result]))"

text \<open>
  Of the pipeline object, \<^verbatim>\<open>process_batch\<close> uses the checkpoint directory and the
  method \<^verbatim>\<open>process_text\<close>. The class does not define \<^verbatim>\<open>process_text\<close>; it is a
  parameter here, a function that returns a result or raises. Logging is left out.
\<close>

record ('t, 'r) EnhancedPipeline =
  checkpoint_dir :: "string option"
  process_text :: "'t \<Rightarrow> exn + 'r"

text \<open>
  The loop over \<^verbatim>\<open>enumerate(batches)\<close>. The checkpoint of a batch receives
  \<^verbatim>\<open>results\<close>, the list accumulated over all batches so far, and what
  \<^verbatim>\<open>_save_checkpoint\<close> raises ends the run.
\<close>

fun process_batches ::
  "('t, 'r) EnhancedPipeline \<Rightarrow> (exn list \<Rightarrow> nat) \<Rightarrow> bool \<Rightarrow> 't list list \<Rightarrow> int \<Rightarrow> 'r list
     \<Rightarrow> 'r files \<Rightarrow> 'r files \<times> (exn + 'r list)" where
  "process_batches p first_to_fail parallel [] batch_idx results fs = (fs, Inr results)"
| "process_batches p first_to_fail parallel (batch # rest) batch_idx results fs =
     (case (if parallel then gather first_to_fail (map (process_text p) batch)
            else run_sequential (process_text p) batch []) of
        Inl e \<Rightarrow> (fs, Inl e)
      | Inr batch_results \<Rightarrow>
          (let results' = results @ batch_results
           in if truthy (checkpoint_dir p) then
                (case save_checkpoint (checkpoint_dir p) batch_idx results' fs of
                   (fs', Inl e) \<Rightarrow> (fs', Inl e)
                 | (fs', Inr _) \<Rightarrow>
                     process_batches p first_to_fail parallel rest (batch_idx + 1) results' fs')
              else process_batches p first_to_fail parallel rest (batch_idx + 1) results' fs))"

definition process_batch ::
  "('t, 'r) EnhancedPipeline \<Rightarrow> (exn list \<Rightarrow> nat) \<Rightarrow> 't list \<Rightarrow> int \<Rightarrow> bool \<Rightarrow> 'r files
     \<Rightarrow> 'r files \<times> (exn + 'r list)" where
  "process_batch p first_to_fail texts batch_size parallel fs =
     (case make_batches texts batch_size of
        Inl e \<Rightarrow> (fs, Inl e)
      | Inr batches \<Rightarrow> process_batches p first_to_fail parallel batches 0 [] fs)"

text \<open>Concrete stages, pipelines and inputs for the examples.\<close>

definition example_pipeline :: "(string, string) EnhancedPipeline" where
  "example_pipeline = \<lparr>checkpoint_dir = Some ''ck'',
     process_text =
       (\<lambda>t. if t = ''bad'' then Inl (OtherException ''RuntimeError'' ''boom'')
            else Inr (t @ ''!''))\<rparr>"

definition plain_pipeline :: "(string, string) EnhancedPipeline" where
  "plain_pipeline = example_pipeline\<lparr>checkpoint_dir := None\<rparr>"

definition seven :: "string list" where
  "seven = [''a'', ''b'', ''c'', ''d'', ''e'', ''f'', ''g'']"

definition failing_stage :: "(nat, unit) PipelineStage" where
  "failing_stage =
     \<lparr>name = ''parse'', processor = (\<lambda>_. Inl (OtherException ''RuntimeError'' ''boom'')),
      validator = (\<lambda>_. Inr True), recovery = None, config = None\<rparr>"

definition strict_stage :: "(nat, unit) PipelineStage" where
  "strict_stage =
     \<lparr>name = ''check'', processor = Inr, validator = (\<lambda>x. Inr (x < 5)),
      recovery = None, config = None\<rparr>"

definition recovering_stage :: "(nat, unit) PipelineStage" where
  "recovering_stage = strict_stage\<lparr>recovery := Some (\<lambda>result context. Inr 0)\<rparr>"

text \<open>Concrete managers for the examples.\<close>

definition example_stage :: "string \<Rightarrow> (nat, unit) PipelineStage" where
  "example_stage n =
     \<lparr>name = n, processor = Inr, validator = (\<lambda>_. Inr True), recovery = None, config = None\<rparr>"

definition example_manager :: "(nat, unit) StageManager" where
  "example_manager = register_all init_manager
     [(example_stage ''A'', None),
      (example_stage ''C'', Some [''A'', ''B'']),
      (example_stage ''B'', Some [''A''])]"

definition cyclic_manager :: "(nat, unit) StageManager" where
  "cyclic_manager = register_all init_manager
     [(example_stage ''A'', Some [''B'']), (example_stage ''B'', Some [''A''])]"

definition self_loop_manager :: "(nat, unit) StageManager" where
  "self_loop_manager = register_all init_manager [(example_stage ''A'', Some [''A''])]"

definition dangling_manager :: "string \<Rightarrow> (nat, unit) StageManager" where
  "dangling_manager n = register_all init_manager [(example_stage n, Some [''B''])]"

section \<open>The traversal of \<^verbatim>\<open>get_execution_order\<close>\<close>

lemma step_ok_refl: "state_ok st \<Longrightarrow> step_ok st st"
  by (simp add: step_ok_def state_ok_def)

lemma step_ok_trans: "step_ok a b \<Longrightarrow> step_ok b c \<Longrightarrow> step_ok a c"
  by (auto simp: step_ok_def)

lemma step_ok_state: "step_ok a b \<Longrightarrow> state_ok b"
  by (simp add: step_ok_def state_ok_def)

lemma step_ok_finish:
  assumes "step_ok (insert s visited, order) (v', o')" "s \<notin> visited" "set order \<subseteq> visited"
  shows "step_ok (visited, order) (v', o' @ [s])"
proof -
  from assms have g: "v' - set o' = insert s visited - set order" by (simp add: step_ok_def)
  from assms(2,3) have "s \<in> insert s visited - set order" by auto
  with g have s: "s \<in> v'" "s \<notin> set o'" by auto
  from g s assms(2,3) have "v' - set (o' @ [s]) = visited - set order" by auto
  with assms(1) s show ?thesis by (auto simp: step_ok_def)
qed

lemma visit_step_ok:
  "visit m s st = Inr st' \<Longrightarrow> state_ok st \<Longrightarrow> step_ok st st' \<and> s \<in> fst st'"
  "visit_deps m ds st = Inr st'' \<Longrightarrow> state_ok st \<Longrightarrow> step_ok st st'' \<and> set ds \<subseteq> fst st''"
proof (induction m s st and m ds st arbitrary: st' and st'' rule: visit_visit_deps.induct)
  case (1 m stage_name visited order)
  show ?case
  proof (cases "stage_name \<in> visited")
    case True
    with 1(2,3) show ?thesis by (auto simp: visit.simps step_ok_refl)
  next
    case False
    with 1(2) obtain v' o' where
      vd: "visit_deps m (deps_get m stage_name) (insert stage_name visited, order) = Inr (v', o')"
      and st': "st' = (v', o' @ [stage_name])"
      by (simp add: visit.simps split: sum.splits prod.splits)
    from 1(3) False have ok: "state_ok (insert stage_name visited, order)"
      by (auto simp: state_ok_def)
    from 1(1)[OF False vd ok] have so: "step_ok (insert stage_name visited, order) (v', o')" by simp
    from 1(3) have "set order \<subseteq> visited" by (simp add: state_ok_def)
    from step_ok_finish[OF so False this] so st' show ?thesis
      by (auto simp: step_ok_def)
  qed
next
  case (2 m st)
  then show ?case by (simp add: step_ok_refl)
next
  case (3 m dep rest st)
  from 3(3) have reg: "\<not> dep \<notin> set (stage_names m)"
    by (simp split: if_splits)
  with 3(3) obtain b where v: "visit m dep st = Inr b" and r: "visit_deps m rest b = Inr st''"
    by (simp split: sum.splits)
  from 3(1)[OF reg v 3(4)] have a: "step_ok st b" "dep \<in> fst b" by simp_all
  from 3(2)[OF reg v r step_ok_state[OF a(1)]] have b: "step_ok b st''" "set rest \<subseteq> fst st''" by simp_all
  from a b show ?case using step_ok_trans[OF a(1) b(1)] by (auto simp: step_ok_def)
qed

lemma visit_bound:
  "visit m s st = Inr st' \<Longrightarrow> fst st' \<subseteq> insert s (fst st \<union> set (stage_names m))"
  "visit_deps m ds st = Inr st'' \<Longrightarrow> fst st'' \<subseteq> fst st \<union> set (stage_names m)"
proof (induction m s st and m ds st arbitrary: st' and st'' rule: visit_visit_deps.induct)
  case (1 m stage_name visited order)
  show ?case
  proof (cases "stage_name \<in> visited")
    case True
    with 1(2) show ?thesis by (auto simp: visit.simps)
  next
    case False
    with 1(2) obtain v' o' where
      vd: "visit_deps m (deps_get m stage_name) (insert stage_name visited, order) = Inr (v', o')"
      and st': "st' = (v', o' @ [stage_name])"
      by (simp add: visit.simps split: sum.splits prod.splits)
    from 1(1)[OF False vd] st' show ?thesis by auto
  qed
next
  case (2 m st)
  then show ?case by simp
next
  case (3 m dep rest st)
  from 3(3) have reg: "\<not> dep \<notin> set (stage_names m)"
    by (simp split: if_splits)
  with 3(3) obtain b where v: "visit m dep st = Inr b" and r: "visit_deps m rest b = Inr st''"
    by (simp split: sum.splits)
  from 3(1)[OF reg v] 3(2)[OF reg v r] reg show ?case by auto
qed

lemma visit_succeeds:
  "all_registered m \<Longrightarrow> s \<in> set (stage_names m) \<Longrightarrow> \<exists>st'. visit m s st = Inr st'"
  "all_registered m \<Longrightarrow> set ds \<subseteq> set (stage_names m) \<Longrightarrow> \<exists>st''. visit_deps m ds st = Inr st''"
proof (induction m s st and m ds st rule: visit_visit_deps.induct)
  case (1 m stage_name visited order)
  show ?case
  proof (cases "stage_name \<in> visited")
    case True
    then show ?thesis by (simp add: visit.simps)
  next
    case False
    from 1(2,3) have "set (deps_get m stage_name) \<subseteq> set (stage_names m)"
      by (auto simp: all_registered_def)
    from 1(1)[OF False 1(2) this] obtain st'' where
      "visit_deps m (deps_get m stage_name) (insert stage_name visited, order) = Inr st''" by blast
    with False show ?thesis by (cases st'') (simp add: visit.simps)
  qed
next
  case (2 m st)
  then show ?case by simp
next
  case (3 m dep rest st)
  from 3(4) have reg: "\<not> dep \<notin> set (stage_names m)" and rest: "set rest \<subseteq> set (stage_names m)"
    by simp_all
  from 3(1)[OF reg 3(3)] reg obtain b where v: "visit m dep st = Inr b" by blast
  from 3(2)[OF reg v 3(3) rest] obtain st'' where "visit_deps m rest b = Inr st''" by blast
  with v reg show ?case by simp
qed

lemma visit_all_step_ok:
  "visit_all m ss st = Inr st' \<Longrightarrow> state_ok st \<Longrightarrow>
     step_ok st st' \<and> set ss \<subseteq> fst st' \<and> fst st' \<subseteq> fst st \<union> set ss \<union> set (stage_names m)"
proof (induction ss arbitrary: st)
  case Nil
  then show ?case by (simp add: step_ok_refl)
next
  case (Cons s ss)
  from Cons.prems(1) obtain b where v: "visit m s st = Inr b" and r: "visit_all m ss b = Inr st'"
    by (simp split: sum.splits)
  from visit_step_ok(1)[OF v Cons.prems(2)] have a: "step_ok st b" "s \<in> fst b" by simp_all
  from Cons.IH[OF r step_ok_state[OF a(1)]]
  have b: "step_ok b st'" "set ss \<subseteq> fst st'" "fst st' \<subseteq> fst b \<union> set ss \<union> set (stage_names m)"
    by simp_all
  from visit_bound(1)[OF v] have c: "fst b \<subseteq> insert s (fst st \<union> set (stage_names m))" .
  have "s \<in> fst st'" using a(2) b(1) by (auto simp: step_ok_def)
  with b c step_ok_trans[OF a(1) b(1)] show ?case by auto
qed

lemma visit_all_succeeds:
  "all_registered m \<Longrightarrow> set ss \<subseteq> set (stage_names m) \<Longrightarrow> \<exists>st'. visit_all m ss st = Inr st'"
proof (induction ss arbitrary: st)
  case Nil
  then show ?case by simp
next
  case (Cons s ss)
  from Cons.prems have "s \<in> set (stage_names m)" by simp
  from visit_succeeds(1)[OF Cons.prems(1) this] obtain b where v: "visit m s st = Inr b" by blast
  from Cons.IH[of b] Cons.prems obtain st' where "visit_all m ss b = Inr st'" by auto
  with v show ?case by simp
qed

lemma order_covers:
  assumes "get_execution_order m = Inr order"
  shows "distinct order \<and> set order = set (stage_names m)"
proof -
  from assms obtain visited where
    va: "visit_all m (stage_names m) ({}, []) = Inr (visited, order)"
    by (auto simp: get_execution_order_def split: sum.splits prod.splits)
  have "state_ok ({}, [])" by (simp add: state_ok_def)
  from visit_all_step_ok[OF va this]
  have "step_ok ({}, []) (visited, order)" "set (stage_names m) \<subseteq> visited"
    "visited \<subseteq> set (stage_names m)" by auto
  then show ?thesis by (auto simp: step_ok_def)
qed

lemma get_execution_order_total:
  assumes "all_registered m"
  shows "\<exists>order. get_execution_order m = Inr order \<and> distinct order \<and>
           set order = set (stage_names m)"
proof -
  from visit_all_succeeds[OF assms subset_refl] obtain st' where
    "visit_all m (stage_names m) ({}, []) = Inr st'" by blast
  then obtain order where "get_execution_order m = Inr order"
    by (cases st') (simp add: get_execution_order_def)
  with order_covers[OF this] show ?thesis by blast
qed

lemma dep_edges_iff:
  "(s, d) \<in> dep_edges m \<longleftrightarrow> s \<in> set (stage_names m) \<and> d \<in> set (deps_get m s)"
  by (auto simp: dep_edges_def)

lemma precedes_append_old: "s \<in> set order \<Longrightarrow> precedes d s (order @ new) = precedes d s order"
  by (simp add: precedes_def takeWhile_append1)

lemma precedes_append_new:
  assumes "s \<notin> set order"
  shows "precedes d s (order @ [s]) = (d \<in> set order)"
proof -
  have "takeWhile (\<lambda>x. x \<noteq> s) (order @ [s]) = order @ takeWhile (\<lambda>x. x \<noteq> s) [s]"
    by (rule takeWhile_append2) (use assms in auto)
  then show ?thesis by (simp add: precedes_def)
qed

lemma respects_deps_snoc:
  assumes "respects_deps m order" "s \<notin> set order" "set (deps_get m s) \<subseteq> set order"
  shows "respects_deps m (order @ [s])"
  unfolding respects_deps_def
proof (intro ballI)
  fix x d assume x: "x \<in> set (order @ [s])" and d: "d \<in> set (deps_get m x)"
  show "precedes d x (order @ [s])"
  proof (cases "x \<in> set order")
    case True
    with assms(1) d show ?thesis by (simp add: precedes_append_old respects_deps_def)
  next
    case False
    with x have "x = s" by simp
    with assms(2,3) d show ?thesis by (auto simp: precedes_append_new)
  qed
qed

lemma visit_respects:
  "visit m s st = Inr st' \<Longrightarrow> acyclic (dep_edges m) \<Longrightarrow> state_ok st \<Longrightarrow>
     respects_deps m (snd st) \<Longrightarrow> s \<in> set (stage_names m) \<Longrightarrow>
     (\<forall>g \<in> fst st - set (snd st). (g, s) \<in> (dep_edges m)\<^sup>+) \<Longrightarrow>
     fst st - set (snd st) \<subseteq> set (stage_names m) \<Longrightarrow>
     respects_deps m (snd st') \<and> s \<in> set (snd st')"
  "visit_deps m ds st = Inr st'' \<Longrightarrow> acyclic (dep_edges m) \<Longrightarrow> state_ok st \<Longrightarrow>
     respects_deps m (snd st) \<Longrightarrow>
     (\<forall>g \<in> fst st - set (snd st). \<forall>d \<in> set ds. (g, d) \<in> (dep_edges m)\<^sup>+) \<Longrightarrow>
     fst st - set (snd st) \<subseteq> set (stage_names m) \<Longrightarrow>
     respects_deps m (snd st'') \<and> set ds \<subseteq> set (snd st'')"
proof (induction m s st and m ds st arbitrary: st' and st'' rule: visit_visit_deps.induct)
  case (1 m stage_name visited order)
  note acyc = 1(3) and ok = 1(4) and resp = 1(5) and reg = 1(6) and grey = 1(7) and greg = 1(8)
  show ?case
  proof (cases "stage_name \<in> visited")
    case True
    have "stage_name \<in> set order"
    proof (rule ccontr)
      assume "stage_name \<notin> set order"
      with True grey have "(stage_name, stage_name) \<in> (dep_edges m)\<^sup>+" by simp
      with acyc show False by (simp add: acyclic_def)
    qed
    with True 1(2) resp show ?thesis by (auto simp: visit.simps)
  next
    case False
    with 1(2) obtain v' o' where
      vd: "visit_deps m (deps_get m stage_name) (insert stage_name visited, order) = Inr (v', o')"
      and st': "st' = (v', o' @ [stage_name])"
      by (simp add: visit.simps split: sum.splits prod.splits)
    from ok False have ok': "state_ok (insert stage_name visited, order)"
      by (auto simp: state_ok_def)
    from ok have sub: "set order \<subseteq> visited" by (simp add: state_ok_def)
    have grey': "\<forall>g \<in> fst (insert stage_name visited, order) - set (snd (insert stage_name visited, order)).
        \<forall>d \<in> set (deps_get m stage_name). (g, d) \<in> (dep_edges m)\<^sup>+"
    proof (intro ballI)
      fix g d
      assume g: "g \<in> fst (insert stage_name visited, order) - set (snd (insert stage_name visited, order))"
        and d: "d \<in> set (deps_get m stage_name)"
      from d reg have e: "(stage_name, d) \<in> dep_edges m" by (simp add: dep_edges_iff)
      show "(g, d) \<in> (dep_edges m)\<^sup>+"
      proof (cases "g = stage_name")
        case True
        with e show ?thesis by blast
      next
        case False
        with g grey have "(g, stage_name) \<in> (dep_edges m)\<^sup>+" by simp
        with e show ?thesis by (auto intro: trancl_into_trancl)
      qed
    qed
    from greg reg have greg': "fst (insert stage_name visited, order) - set (snd (insert stage_name visited, order))
        \<subseteq> set (stage_names m)" by auto
    from resp have resp': "respects_deps m (snd (insert stage_name visited, order))" by simp
    from 1(1)[OF False vd acyc ok' resp' grey' greg']
    have r: "respects_deps m o'" and ds: "set (deps_get m stage_name) \<subseteq> set o'" by simp_all
    from visit_step_ok(2)[OF vd ok'] have so: "step_ok (insert stage_name visited, order) (v', o')"
      by simp
    then have "v' - set o' = insert stage_name visited - set order" by (simp add: step_ok_def)
    with False sub have "stage_name \<notin> set o'" by auto
    from respects_deps_snoc[OF r this ds] st' show ?thesis by simp
  qed
next
  case (2 m st)
  then show ?case by simp
next
  case (3 m dep rest st)
  note acyc = 3(4) and ok = 3(5) and resp = 3(6) and grey = 3(7) and greg = 3(8)
  from 3(3) have reg: "\<not> dep \<notin> set (stage_names m)"
    by (simp split: if_splits)
  with 3(3) obtain b where v: "visit m dep st = Inr b" and r: "visit_deps m rest b = Inr st''"
    by (simp split: sum.splits)
  from reg have reg': "dep \<in> set (stage_names m)" by simp
  from grey have g1: "\<forall>g \<in> fst st - set (snd st). (g, dep) \<in> (dep_edges m)\<^sup>+" by simp
  from 3(1)[OF reg v acyc ok resp reg' g1 greg]
  have a: "respects_deps m (snd b)" "dep \<in> set (snd b)" by simp_all
  from visit_step_ok(1)[OF v ok] have so: "step_ok st b" by simp
  then have geq: "fst b - set (snd b) = fst st - set (snd st)" by (simp add: step_ok_def)
  from grey geq have g2: "\<forall>g \<in> fst b - set (snd b). \<forall>d \<in> set rest. (g, d) \<in> (dep_edges m)\<^sup>+"
    by simp
  from greg geq have greg2: "fst b - set (snd b) \<subseteq> set (stage_names m)" by simp
  from 3(2)[OF reg v r acyc step_ok_state[OF so] a(1) g2 greg2]
  have c: "respects_deps m (snd st'')" "set rest \<subseteq> set (snd st'')" by simp_all
  from visit_step_ok(2)[OF r step_ok_state[OF so]] have "step_ok b st''" by simp
  then have "set (snd b) \<subseteq> set (snd st'')" by (auto simp: step_ok_def)
  with a(2) c show ?case by auto
qed

lemma visit_all_respects:
  "visit_all m ss st = Inr st' \<Longrightarrow> acyclic (dep_edges m) \<Longrightarrow> state_ok st \<Longrightarrow>
     respects_deps m (snd st) \<Longrightarrow> set ss \<subseteq> set (stage_names m) \<Longrightarrow>
     fst st = set (snd st) \<Longrightarrow> respects_deps m (snd st')"
proof (induction ss arbitrary: st)
  case Nil
  then show ?case by simp
next
  case (Cons s ss)
  from Cons.prems(1) obtain b where v: "visit m s st = Inr b" and r: "visit_all m ss b = Inr st'"
    by (simp split: sum.splits)
  from Cons.prems(6) have g: "\<forall>g \<in> fst st - set (snd st). (g, s) \<in> (dep_edges m)\<^sup>+"
    and gr: "fst st - set (snd st) \<subseteq> set (stage_names m)" by simp_all
  from Cons.prems(5) have reg: "s \<in> set (stage_names m)" by simp
  from visit_respects(1)[OF v Cons.prems(2,3,4) reg g gr] have a: "respects_deps m (snd b)" by simp
  from visit_step_ok(1)[OF v Cons.prems(3)] have so: "step_ok st b" by simp
  with Cons.prems(6) have eq: "fst b = set (snd b)" by (auto simp: step_ok_def)
  from Cons.prems(5) have "set ss \<subseteq> set (stage_names m)" by simp
  from Cons.IH[OF r Cons.prems(2) step_ok_state[OF so] a this eq] show ?case .
qed

lemma order_respects:
  assumes "get_execution_order m = Inr order" "acyclic (dep_edges m)"
  shows "respects_deps m order"
proof -
  from assms obtain visited where
    va: "visit_all m (stage_names m) ({}, []) = Inr (visited, order)"
    by (auto simp: get_execution_order_def split: sum.splits prod.splits)
  have "state_ok ({}, [])" "respects_deps m (snd ({}, []))" "fst ({}::string set, []::string list) = set (snd ({}::string set, []::string list))"
    by (simp_all add: state_ok_def respects_deps_def)
  from visit_all_respects[OF va assms(2) this(1,2) subset_refl this(3)] show ?thesis by simp
qed

lemma precedes_index:
  "precedes d s order \<Longrightarrow>
     length (takeWhile (\<lambda>x. x \<noteq> d) order) < length (takeWhile (\<lambda>x. x \<noteq> s) order)"
  unfolding precedes_def by (induction order) (auto split: if_splits)

lemma respects_acyclic:
  assumes "respects_deps m order" "set (stage_names m) \<subseteq> set order"
  shows "acyclic (dep_edges m)"
proof (rule acyclicI_order)
  fix a b assume "(a, b) \<in> dep_edges m"
  then have "a \<in> set order" "b \<in> set (deps_get m a)" using assms(2) by (auto simp: dep_edges_iff)
  with assms(1) have "precedes b a order" by (simp add: respects_deps_def)
  then show "length (takeWhile (\<lambda>x. x \<noteq> b) order) < length (takeWhile (\<lambda>x. x \<noteq> a) order)"
    by (rule precedes_index)
qed

lemma visit_cong:
  fixes m :: "('d, 'c) StageManager" and m' :: "('e, 'f) StageManager"
  shows "stage_names m' = stage_names m \<Longrightarrow> dependencies m' = dependencies m \<Longrightarrow>
           visit m s st = visit m' s st"
    and "stage_names m' = stage_names m \<Longrightarrow> dependencies m' = dependencies m \<Longrightarrow>
           visit_deps m ds st = visit_deps m' ds st"
proof (induction m s st and m ds st rule: visit_visit_deps.induct)
  case (1 m stage_name visited order)
  from 1(3) have dg: "deps_get m' stage_name = deps_get m stage_name" by (simp add: deps_get_def)
  show ?case
  proof (cases "stage_name \<in> visited")
    case True
    then show ?thesis by (simp add: visit.simps)
  next
    case False
    from 1(1)[OF False 1(2,3)] dg False show ?thesis by (simp add: visit.simps)
  qed
next
  case (2 m st)
  then show ?case by simp
next
  case (3 m dep rest st)
  show ?case
  proof (cases "dep \<notin> set (stage_names m)")
    case True
    with 3(3) show ?thesis by simp
  next
    case False
    note v = 3(1)[OF False 3(3,4)]
    show ?thesis
    proof (cases "visit m dep st")
      case (Inl e)
      with v have "visit m' dep st = Inl e" by simp
      with Inl False 3(3) show ?thesis by simp
    next
      case (Inr b)
      with v have "visit m' dep st = Inr b" by simp
      with 3(2)[OF False Inr 3(3,4)] Inr False 3(3) show ?thesis by simp
    qed
  qed
qed

lemma get_execution_order_cong:
  fixes m :: "('d, 'c) StageManager" and m' :: "('e, 'f) StageManager"
  assumes "stage_names m' = stage_names m" "dependencies m' = dependencies m"
  shows "get_execution_order m' = get_execution_order m"
proof -
  have "visit_all m ss st = visit_all m' ss st" for ss st
    by (induction ss arbitrary: st) (simp_all add: visit_cong(1)[OF assms] split: sum.splits)
  with assms(1) show ?thesis by (simp add: get_execution_order_def)
qed

lemma stage_names_register:
  "stage_names (register_stage m stage deps) =
     (if name stage \<in> set (stage_names m) then stage_names m else stage_names m @ [name stage])"
  by (simp add: register_stage_def stage_names_def update_keys Let_def split: option.splits)

lemma dependencies_register:
  "dependencies (register_stage m stage deps) =
     (case deps of None \<Rightarrow> dependencies m
      | Some ds \<Rightarrow> if ds \<noteq> [] then (dependencies m)(name stage \<mapsto> ds) else dependencies m)"
  by (simp add: register_stage_def Let_def split: option.splits)

lemma register_all_cong:
  fixes m :: "('d, 'c) StageManager" and m' :: "('e, 'f) StageManager"
  shows "map registration_key regs' = map registration_key regs \<Longrightarrow>
     stage_names m' = stage_names m \<Longrightarrow> dependencies m' = dependencies m \<Longrightarrow>
     stage_names (register_all m' regs') = stage_names (register_all m regs) \<and>
     dependencies (register_all m' regs') = dependencies (register_all m regs)"
proof (induction regs arbitrary: regs' m m')
  case Nil
  then show ?case by (simp add: register_all_def)
next
  case (Cons r regs)
  from Cons.prems(1) obtain r' rest' where regs': "regs' = r' # rest'" by (cases regs') auto
  obtain stage deps where r: "r = (stage, deps)" by (cases r)
  obtain stage' deps' where r': "r' = (stage', deps')" by (cases r')
  from Cons.prems(1) regs' have k: "registration_key r' = registration_key r"
    and rest: "map registration_key rest' = map registration_key regs"
    by simp_all
  from k r r' have eq: "name stage' = name stage" "deps' = deps"
    by (simp_all add: registration_key_def)
  have a: "stage_names (register_stage m' stage' deps') = stage_names (register_stage m stage deps)"
    using Cons.prems(2) eq by (simp add: stage_names_register)
  have b: "dependencies (register_stage m' stage' deps') = dependencies (register_stage m stage deps)"
    using Cons.prems(3) eq by (simp add: dependencies_register split: option.splits)
  from Cons.IH[OF rest a b] regs' r r' show ?case by (simp add: register_all_def)
qed

lemma visit_error_form:
  "visit m s st = Inl e \<Longrightarrow> s \<in> set (stage_names m) \<Longrightarrow> unknown_dependency_error m e"
  "visit_deps m ds st = Inl e \<Longrightarrow> \<exists>s0 \<in> set (stage_names m). set ds \<subseteq> set (deps_get m s0) \<Longrightarrow>
     unknown_dependency_error m e"
proof (induction m s st and m ds st rule: visit_visit_deps.induct)
  case (1 m stage_name visited order)
  from 1(2) have nv: "stage_name \<notin> visited" by (auto simp: visit.simps split: if_splits)
  with 1(2) have vd: "visit_deps m (deps_get m stage_name) (insert stage_name visited, order) = Inl e"
    by (simp add: visit.simps split: sum.splits prod.splits)
  from 1(3) have "\<exists>s0 \<in> set (stage_names m). set (deps_get m stage_name) \<subseteq> set (deps_get m s0)"
    by blast
  from 1(1)[OF nv vd this] show ?case .
next
  case (2 m st)
  then show ?case by simp
next
  case (3 m dep rest st)
  from 3(4) obtain s0 where s0: "s0 \<in> set (stage_names m)" "set (dep # rest) \<subseteq> set (deps_get m s0)"
    by blast
  show ?case
  proof (cases "dep \<notin> set (stage_names m)")
    case True
    with 3(3) have "e = ValueError (''Unknown dependency: '' @ dep)" by simp
    with True s0 show ?thesis unfolding unknown_dependency_error_def by auto
  next
    case False
    show ?thesis
    proof (cases "visit m dep st")
      case (Inl e')
      with 3(3) False have "e' = e" by simp
      with 3(1)[OF False] Inl False show ?thesis by simp
    next
      case (Inr b)
      with 3(3) False have r: "visit_deps m rest b = Inl e" by simp
      from s0 have "\<exists>s0 \<in> set (stage_names m). set rest \<subseteq> set (deps_get m s0)" by auto
      from 3(2)[OF False Inr r this] show ?thesis .
    qed
  qed
qed

lemma visit_checked:
  "visit m s st = Inr st' \<Longrightarrow> \<forall>x \<in> set (snd st). set (deps_get m x) \<subseteq> set (stage_names m) \<Longrightarrow>
     \<forall>x \<in> set (snd st'). set (deps_get m x) \<subseteq> set (stage_names m)"
  "visit_deps m ds st = Inr st'' \<Longrightarrow> \<forall>x \<in> set (snd st). set (deps_get m x) \<subseteq> set (stage_names m) \<Longrightarrow>
     (\<forall>x \<in> set (snd st''). set (deps_get m x) \<subseteq> set (stage_names m)) \<and> set ds \<subseteq> set (stage_names m)"
proof (induction m s st and m ds st arbitrary: st' and st'' rule: visit_visit_deps.induct)
  case (1 m stage_name visited order)
  show ?case
  proof (cases "stage_name \<in> visited")
    case True
    with 1(2,3) show ?thesis by (auto simp: visit.simps)
  next
    case False
    with 1(2) obtain v' o' where
      vd: "visit_deps m (deps_get m stage_name) (insert stage_name visited, order) = Inr (v', o')"
      and st': "st' = (v', o' @ [stage_name])"
      by (simp add: visit.simps split: sum.splits prod.splits)
    from 1(3) have "\<forall>x \<in> set (snd (insert stage_name visited, order)). set (deps_get m x) \<subseteq> set (stage_names m)"
      by simp
    from 1(1)[OF False vd this] st' show ?thesis by auto
  qed
next
  case (2 m st)
  then show ?case by simp
next
  case (3 m dep rest st)
  from 3(3) have reg: "\<not> dep \<notin> set (stage_names m)"
    by (simp split: if_splits)
  with 3(3) obtain b where v: "visit m dep st = Inr b" and r: "visit_deps m rest b = Inr st''"
    by (simp split: sum.splits)
  from 3(2)[OF reg v r 3(1)[OF reg v 3(4)]] reg show ?case by simp
qed

lemma visit_all_checked:
  "visit_all m ss st = Inr st' \<Longrightarrow> \<forall>x \<in> set (snd st). set (deps_get m x) \<subseteq> set (stage_names m) \<Longrightarrow>
     \<forall>x \<in> set (snd st'). set (deps_get m x) \<subseteq> set (stage_names m)"
proof (induction ss arbitrary: st)
  case Nil
  then show ?case by simp
next
  case (Cons s ss)
  from Cons.prems(1) obtain b where v: "visit m s st = Inr b" and r: "visit_all m ss b = Inr st'"
    by (simp split: sum.splits)
  from Cons.IH[OF r visit_checked(1)[OF v Cons.prems(2)]] show ?case .
qed

lemma visit_all_error_form:
  "visit_all m ss st = Inl e \<Longrightarrow> set ss \<subseteq> set (stage_names m) \<Longrightarrow> unknown_dependency_error m e"
proof (induction ss arbitrary: st)
  case Nil
  then show ?case by simp
next
  case (Cons s ss)
  show ?case
  proof (cases "visit m s st")
    case (Inl e')
    with Cons.prems(1) have "e' = e" by simp
    with Inl Cons.prems(2) visit_error_form(1)[of m s st e] show ?thesis by simp
  next
    case (Inr b)
    with Cons.prems(1) have "visit_all m ss b = Inl e" by simp
    from Cons.IH[OF this] Cons.prems(2) show ?thesis by simp
  qed
qed

lemma order_all_registered:
  assumes "get_execution_order m = Inr order"
  shows "all_registered m"
proof -
  from assms obtain visited where
    va: "visit_all m (stage_names m) ({}, []) = Inr (visited, order)"
    by (auto simp: get_execution_order_def split: sum.splits prod.splits)
  from visit_all_checked[OF va] have "\<forall>x \<in> set order. set (deps_get m x) \<subseteq> set (stage_names m)"
    by simp
  with order_covers[OF assms] show ?thesis by (auto simp: all_registered_def)
qed

lemma order_error:
  assumes "\<not> all_registered m"
  shows "\<exists>e. get_execution_order m = Inl e \<and> unknown_dependency_error m e"
proof (cases "get_execution_order m")
  case (Inl e)
  then have "visit_all m (stage_names m) ({}, []) = Inl e"
    by (simp add: get_execution_order_def split: sum.splits prod.splits)
  from visit_all_error_form[OF this subset_refl] Inl show ?thesis by simp
next
  case (Inr order)
  from order_all_registered[OF this] assms show ?thesis by simp
qed



section \<open>Batches and the batch loop\<close>

lemma py_slice_nonneg:
  assumes "0 \<le> i" "0 < B"
  shows "py_slice xs i (i + B) = take (nat B) (drop (nat i) xs)"
proof -
  have "nat (i + B) - nat i = nat B" using assms by linarith
  with assms show ?thesis by (simp add: py_slice_def drop_take)
qed

lemma batches_from_unfold:
  "batches_from xs B k =
     (if 0 < B \<and> k < int (length xs) then py_slice xs k (k + B) # batches_from xs B (k + B)
      else [])"
  unfolding batches_from_def by (subst range_up.simps) simp

lemma make_batches_pos: "0 < B \<Longrightarrow> make_batches xs B = Inr (batches_from xs B 0)"
  by (simp add: make_batches_def py_range_def batches_from_def)

lemma concat_batches_from:
  "0 < B \<Longrightarrow> 0 \<le> k \<Longrightarrow> concat (batches_from xs B k) = drop (nat k) xs"
proof (induction k "int (length xs)" B rule: range_up.induct)
  case (1 i step)
  show ?case
  proof (cases "i < int (length xs)")
    case True
    have n: "nat (i + step) = nat i + nat step" using 1(2,3) by linarith
    from True 1 have "concat (batches_from xs step i) =
        take (nat step) (drop (nat i) xs) @ drop (nat (i + step)) xs"
      by (subst batches_from_unfold) (simp add: py_slice_nonneg)
    also have "\<dots> = drop (nat i) xs"
      unfolding n by (metis add.commute append_take_drop_id drop_drop)
    finally show ?thesis .
  next
    case False
    with 1(3) have "drop (nat i) xs = []" by simp
    with False show ?thesis by (subst batches_from_unfold) simp
  qed
qed

lemma length_batches_from:
  "0 < B \<Longrightarrow> int (length (batches_from xs B k)) = max 0 ((int (length xs) - k + B - 1) div B)"
proof (induction k "int (length xs)" B rule: range_up.induct)
  case (1 i step)
  show ?case
  proof (cases "i < int (length xs)")
    case True
    from True 1(2) have nn: "0 \<le> (int (length xs) - i - 1) div step"
      by (simp add: pos_imp_zdiv_nonneg_iff)
    have "int (length xs) - i + step - 1 = (int (length xs) - i - 1) + step" by simp
    then have "(int (length xs) - i + step - 1) div step = (int (length xs) - i - 1) div step + 1"
      using 1(2) by (simp only: div_add_self2)
    with nn True 1 show ?thesis
      by (subst batches_from_unfold) (simp add: algebra_simps)
  next
    case False
    with 1(2) have "\<not> 0 < (int (length xs) - i + step - 1) div step"
      by (simp add: pos_imp_zdiv_pos_iff)
    then have "(int (length xs) - i + step - 1) div step \<le> 0" by simp
    with False show ?thesis by (subst batches_from_unfold) simp
  qed
qed

lemma ceiling_div:
  assumes "0 < (B::int)"
  shows "\<lceil>real_of_int L / real_of_int B\<rceil> = (L + B - 1) div B"
proof -
  have m: "0 \<le> L mod B" "L mod B < B" using assms by simp_all
  have "L + B - 1 = (L mod B + B - 1) + B * (L div B)" by (simp add: algebra_simps)
  then have "(L + B - 1) div B = (L mod B + B - 1 + B * (L div B)) div B"
    by (rule arg_cong[where f = "\<lambda>x. x div B"])
  also have "\<dots> = L div B + (L mod B + B - 1) div B"
    using assms by (simp only: div_mult_self2)
  finally have r: "(L + B - 1) div B = L div B + (L mod B + B - 1) div B" .
  have l: "\<lceil>real_of_int L / real_of_int B\<rceil> = - (- L div B)" by (rule ceiling_divide_eq_div)
  show ?thesis
  proof (cases "L mod B = 0")
    case True
    with assms have "(L mod B + B - 1) div B = 0" by (simp add: div_pos_pos_trivial)
    moreover from True assms have "- L div B = - (L div B)" by (simp add: zdiv_zminus1_eq_if)
    ultimately show ?thesis using l r by simp
  next
    case False
    with m have "0 \<le> L mod B - 1" "L mod B - 1 < B" by simp_all
    then have "(L mod B - 1) div B = 0" by (simp add: div_pos_pos_trivial)
    moreover have "L mod B + B - 1 = (L mod B - 1) + B" by simp
    then have "(L mod B + B - 1) div B = (L mod B - 1) div B + 1"
      using assms by (simp only: div_add_self2)
    moreover from False assms have "- L div B = - (L div B) - 1" by (simp add: zdiv_zminus1_eq_if)
    ultimately show ?thesis using l r by simp
  qed
qed

lemma batch_sizes:
  "0 < B \<Longrightarrow> 0 \<le> k \<Longrightarrow>
     (\<forall>b \<in> set (batches_from xs B k). 0 < length b \<and> int (length b) \<le> B) \<and>
     (\<forall>b \<in> set (butlast (batches_from xs B k)). int (length b) = B)"
proof (induction k "int (length xs)" B rule: range_up.induct)
  case (1 i step)
  show ?case
  proof (cases "i < int (length xs)")
    case True
    have u: "batches_from xs step i =
        take (nat step) (drop (nat i) xs) # batches_from xs step (i + step)"
      using True 1(2,3) by (subst batches_from_unfold) (simp add: py_slice_nonneg)
    have len: "int (length (take (nat step) (drop (nat i) xs))) = min step (int (length xs) - i)"
      using True 1(2,3) by (simp add: min_def) linarith
    have ih: "(\<forall>b \<in> set (batches_from xs step (i + step)). 0 < length b \<and> int (length b) \<le> step) \<and>
     (\<forall>b \<in> set (butlast (batches_from xs step (i + step))). int (length b) = step)"
      using 1(1)[OF _ 1(2)] True 1(2,3) by simp
    have full: "int (length (take (nat step) (drop (nat i) xs))) = step"
      if "batches_from xs step (i + step) \<noteq> []"
    proof -
      from that have "i + step < int (length xs)"
        by (subst (asm) batches_from_unfold) (simp split: if_splits)
      with len show ?thesis by simp
    qed
    from len True 1(2) have "0 < int (length (take (nat step) (drop (nat i) xs)))"
      by linarith
    then have first1: "0 < length (take (nat step) (drop (nat i) xs))" by linarith
    from len have first2: "int (length (take (nat step) (drop (nat i) xs))) \<le> step"
      by linarith
    note first = first1 first2
    show ?thesis unfolding u using ih first full by auto
  next
    case False
    then show ?thesis by (subst batches_from_unfold, subst batches_from_unfold) simp
  qed
qed

lemma length_batches:
  assumes "0 < B"
  shows "int (length (batches_from xs B 0)) = \<lceil>real (length xs) / real_of_int B\<rceil>"
proof -
  have "0 \<le> (int (length xs) + B - 1) div B"
    using assms by (simp add: pos_imp_zdiv_nonneg_iff)
  with length_batches_from[OF assms, of xs 0]
  have "int (length (batches_from xs B 0)) = (int (length xs) + B - 1) div B" by simp
  also have "\<dots> = \<lceil>real_of_int (int (length xs)) / real_of_int B\<rceil>"
    by (rule ceiling_div[OF assms, symmetric])
  finally show ?thesis by simp
qed

lemma concat_batches: "0 < B \<Longrightarrow> concat (batches_from xs B 0) = xs"
  using concat_batches_from[of B 0 xs] by simp

lemma outcomes_all_returned:
  "\<forall>t \<in> set batch. pt t = Inr (f t) \<Longrightarrow>
     failures (map pt batch) = [] \<and> returned (map pt batch) = map f batch"
  by (induction batch) simp_all

lemma gather_all_returned:
  "\<forall>t \<in> set batch. pt t = Inr (f t) \<Longrightarrow> gather s (map pt batch) = Inr (map f batch)"
  using outcomes_all_returned[of batch pt f] by (simp add: gather_def)

lemma run_sequential_all_returned:
  "\<forall>t \<in> set batch. pt t = Inr (f t) \<Longrightarrow> run_sequential pt batch acc = Inr (acc @ map f batch)"
  by (induction batch arbitrary: acc) simp_all

lemma batch_all_returned:
  assumes "\<forall>t \<in> set batch. pt t = Inr (f t)"
  shows "(if parallel then gather s (map pt batch) else run_sequential pt batch []) = Inr (map f batch)"
  using gather_all_returned[OF assms] run_sequential_all_returned[OF assms, of "[]"] by simp

lemma failures_set: "e \<in> set (failures outcomes) \<longleftrightarrow> Inl e \<in> set outcomes"
proof (induction outcomes)
  case Nil
  then show ?case by simp
next
  case (Cons a outcomes)
  then show ?case by (cases a) auto
qed

lemma gather_fails:
  assumes "\<exists>t \<in> set batch. \<exists>e. pt t = Inl e"
  shows "\<exists>t \<in> set batch. \<exists>e. pt t = Inl e \<and> gather s (map pt batch) = Inl e"
proof -
  let ?fs = "failures (map pt batch)"
  from assms obtain t e where "t \<in> set batch" "pt t = Inl e" by blast
  then have "Inl e \<in> set (map pt batch)" by force
  then have "e \<in> set ?fs" by (simp only: failures_set)
  then have ne: "?fs \<noteq> []" by auto
  then have "s ?fs mod length ?fs < length ?fs" by simp
  then have "?fs ! (s ?fs mod length ?fs) \<in> set ?fs" by (rule nth_mem)
  then have "Inl (?fs ! (s ?fs mod length ?fs)) \<in> set (map pt batch)" by (simp only: failures_set)
  then obtain t' where "t' \<in> set batch" "pt t' = Inl (?fs ! (s ?fs mod length ?fs))" by auto
  moreover from ne have "gather s (map pt batch) = Inl (?fs ! (s ?fs mod length ?fs))"
    by (simp add: gather_def)
  ultimately show ?thesis by auto
qed

lemma make_batches_partition:
  assumes "0 < B"
  shows "\<exists>batches. make_batches texts B = Inr batches \<and>
           int (length batches) = \<lceil>real (length texts) / real_of_int B\<rceil> \<and>
           concat batches = texts \<and>
           (\<forall>b \<in> set batches. 0 < length b \<and> int (length b) \<le> B) \<and>
           (\<forall>b \<in> set (butlast batches). int (length b) = B)"
  using make_batches_pos[OF assms, of texts] length_batches[OF assms, of texts]
    concat_batches[OF assms, of texts] batch_sizes[OF assms, of 0 texts] by simp

lemma lookup_pickle: "lookup_global ''pickle'' = Inl (NameError ''pickle'')"
  by (simp add: lookup_global_def module_names_def)

lemma lookup_os: "lookup_global ''os'' = Inl (NameError ''os'')"
  by (simp add: lookup_global_def module_names_def)

lemma save_checkpoint_raises:
  "save_checkpoint dir batch_idx results fs =
     (fs(checkpoint_path dir batch_idx \<mapsto> Empty_file), Inl (NameError ''pickle''))"
  by (simp add: save_checkpoint_def lookup_pickle Let_def)

lemma process_batches_plain_step:
  assumes "\<not> truthy (checkpoint_dir p)" and "\<forall>t \<in> set batch. process_text p t = Inr (f t)"
  shows "process_batches p s parallel (batch # rest) idx acc fs =
           process_batches p s parallel rest (idx + 1) (acc @ map f batch) fs"
  using batch_all_returned[OF assms(2), of parallel s] assms(1) by (simp add: Let_def)

lemma process_batches_plain_results:
  "\<not> truthy (checkpoint_dir p) \<Longrightarrow> \<forall>t \<in> set (concat bs). process_text p t = Inr (f t) \<Longrightarrow>
     process_batches p s parallel bs idx acc fs = (fs, Inr (acc @ map f (concat bs)))"
proof (induction bs arbitrary: idx acc)
  case Nil
  then show ?case by simp
next
  case (Cons b bs)
  from Cons.prems have b: "\<forall>t \<in> set b. process_text p t = Inr (f t)"
    and r: "\<forall>t \<in> set (concat bs). process_text p t = Inr (f t)" by simp_all
  show ?case
    unfolding process_batches_plain_step[OF Cons.prems(1) b]
    by (simp add: Cons.IH[OF Cons.prems(1) r])
qed

lemma process_batches_checkpoint_aborts:
  assumes "truthy (checkpoint_dir p)" and "\<forall>t \<in> set batch. process_text p t = Inr (f t)"
  shows "process_batches p s parallel (batch # rest) idx acc fs =
           (fs(checkpoint_path (checkpoint_dir p) idx \<mapsto> Empty_file), Inl (NameError ''pickle''))"
  using batch_all_returned[OF assms(2), of parallel s] assms(1)
  by (simp add: Let_def save_checkpoint_raises)

lemma process_batches_first_fails:
  assumes "\<exists>t \<in> set batch. \<exists>e. process_text p t = Inl e"
  shows "\<exists>t \<in> set batch. \<exists>e. process_text p t = Inl e \<and>
           process_batches p s True (batch # rest) idx acc fs = (fs, Inl e)"
proof -
  from gather_fails[OF assms, of s] obtain t e where
    "t \<in> set batch" "process_text p t = Inl e" "gather s (map (process_text p) batch) = Inl e"
    by blast
  then show ?thesis by auto
qed

lemma process_batches_plain_fails:
  "\<not> truthy (checkpoint_dir p) \<Longrightarrow> n < length bs \<Longrightarrow>
   \<forall>t \<in> set (concat (take n bs)). process_text p t = Inr (f t) \<Longrightarrow>
   \<exists>t \<in> set (bs ! n). \<exists>e. process_text p t = Inl e \<Longrightarrow>
     \<exists>t \<in> set (bs ! n). \<exists>e. process_text p t = Inl e \<and>
        process_batches p s True bs idx acc fs = (fs, Inl e)"
proof (induction bs arbitrary: n idx acc)
  case Nil
  then show ?case by simp
next
  case (Cons b bs)
  show ?case
  proof (cases n)
    case 0
    with Cons.prems(4) have "\<exists>t \<in> set b. \<exists>e. process_text p t = Inl e" by simp
    from process_batches_first_fails[OF this, of s bs idx acc fs] 0 show ?thesis by simp
  next
    case (Suc k)
    with Cons.prems have k: "k < length bs"
      and b: "\<forall>t \<in> set b. process_text p t = Inr (f t)"
      and r: "\<forall>t \<in> set (concat (take k bs)). process_text p t = Inr (f t)"
      and fl: "\<exists>t \<in> set (bs ! k). \<exists>e. process_text p t = Inl e" by simp_all
    from Cons.IH[OF Cons.prems(1) k r fl, of "idx + 1" "acc @ map f b"] Suc show ?thesis
      unfolding process_batches_plain_step[OF Cons.prems(1) b] by simp
  qed
qed

lemma process_batch_plain_results:
  assumes "0 < B" and "\<not> truthy (checkpoint_dir p)"
    and "\<forall>t \<in> set texts. process_text p t = Inr (f t)"
  shows "process_batch p s texts B parallel fs = (fs, Inr (map f texts))"
proof -
  from assms(3) concat_batches[OF assms(1), of texts]
  have "\<forall>t \<in> set (concat (batches_from texts B 0)). process_text p t = Inr (f t)" by simp
  from process_batches_plain_results[OF assms(2) this, of s parallel 0 "[]" fs]
    concat_batches[OF assms(1), of texts]
  show ?thesis by (simp add: process_batch_def make_batches_pos[OF assms(1)])
qed

lemmas batch_eval = process_batch_def make_batches_def py_range_def range_up.simps py_slice_def
  example_pipeline_def plain_pipeline_def seven_def gather_def truthy_def save_checkpoint_def
  load_checkpoint_def lookup_global_def module_names_def checkpoint_path_def str_int_def
  str_nat.simps format_optional_def digit_def Let_def

lemma seven_batches:
  "make_batches seven 3 = Inr [[''a'', ''b'', ''c''], [''d'', ''e'', ''f''], [''g'']]"
  by (simp add: batch_eval)

lemma seven_succeed: "\<forall>t \<in> set seven. process_text example_pipeline t = Inr (t @ ''!'')"
  by (simp add: example_pipeline_def seven_def)

lemma example_pipeline_dir: "truthy (checkpoint_dir example_pipeline)"
  by (simp add: example_pipeline_def truthy_def)

lemma plain_pipeline_dir: "\<not> truthy (checkpoint_dir plain_pipeline)"
  by (simp add: plain_pipeline_def truthy_def)

lemma checkpoint_path_ck_0: "checkpoint_path (Some ''ck'') 0 = ''ck/checkpoint_0.pkl''"
  by (simp add: checkpoint_path_def format_optional_def str_int_def str_nat.simps digit_def)

section \<open>Evaluation of the examples\<close>

lemmas manager_eval =
  register_all_def register_stage_def init_manager_def example_stage_def stage_names_def
  deps_get_def get_execution_order_def visit.simps

lemma example_manager_order: "get_execution_order example_manager = Inr [''A'', ''B'', ''C'']"
  by (simp add: example_manager_def manager_eval)

lemma example_manager_registered: "all_registered example_manager"
  by (simp add: example_manager_def all_registered_def manager_eval)

lemma example_manager_acyclic: "acyclic (dep_edges example_manager)"
  by code_simp

lemma cyclic_manager_order: "get_execution_order cyclic_manager = Inr [''B'', ''A'']"
  by (simp add: cyclic_manager_def manager_eval)

lemma cyclic_manager_registered: "all_registered cyclic_manager"
  by (simp add: cyclic_manager_def all_registered_def manager_eval)

lemma cyclic_manager_cycle: "\<not> acyclic (dep_edges cyclic_manager)"
  by code_simp

lemma self_loop_manager_registered: "all_registered self_loop_manager"
  by (simp add: self_loop_manager_def all_registered_def manager_eval)

lemma self_loop_manager_cycle: "\<not> acyclic (dep_edges self_loop_manager)"
  by code_simp

lemma dangling_manager_order:
  "get_execution_order (dangling_manager ''A'') = Inl (ValueError ''Unknown dependency: B'')"
  "get_execution_order (dangling_manager ''C'') = Inl (ValueError ''Unknown dependency: B'')"
  by (simp_all add: dangling_manager_def manager_eval)

lemma dangling_manager_unregistered: "\<not> all_registered (dangling_manager ''A'')"
  by (simp add: dangling_manager_def all_registered_def manager_eval)

section \<open>The claims about the stage manager\<close>

text \<open>
  C1, as the code has it. The traversal marks stages with a single \<^verbatim>\<open>visited\<close> set
  and has no notion of a stage in progress, so a cycle is not detected. When the dependency
  graph has a cycle and every prerequisite is registered, \<^verbatim>\<open>get_execution_order\<close>
  terminates and returns, without any error, a list of the registered stages, each once,
  in which some stage does not come after one of its own prerequisites.
\<close>

theorem cyclic_graph_returns_order:
  assumes "all_registered m" and "\<not> acyclic (dep_edges m)"
  shows "\<exists>order. get_execution_order m = Inr order \<and> distinct order \<and>
           set order = set (stage_names m) \<and> \<not> respects_deps m order"
proof -
  from get_execution_order_total[OF assms(1)] obtain order where
    o: "get_execution_order m = Inr order" "distinct order" "set order = set (stage_names m)"
    by blast
  have "\<not> respects_deps m order"
  proof
    assume "respects_deps m order"
    from respects_acyclic[OF this] o(3) assms(2) show False by simp
  qed
  with o show ?thesis by blast
qed

theorem cyclic_graph_returns_order_witness:
  "all_registered self_loop_manager \<and> \<not> acyclic (dep_edges self_loop_manager) \<and>
   (\<exists>order. get_execution_order self_loop_manager = Inr order \<and> distinct order \<and>
      set order = set (stage_names self_loop_manager) \<and> \<not> respects_deps self_loop_manager order)"
  using cyclic_graph_returns_order[OF self_loop_manager_registered self_loop_manager_cycle]
    self_loop_manager_registered self_loop_manager_cycle by simp

text \<open>
  C1 as stated fails: with A depending on B and B on A, both registered, the order
  [B, A] is returned and no error is raised.
\<close>

theorem cyclic_dependency_counterexample:
  "all_registered cyclic_manager \<and> \<not> acyclic (dep_edges cyclic_manager) \<and>
   get_execution_order cyclic_manager = Inr [''B'', ''A'']"
  using cyclic_manager_registered cyclic_manager_cycle cyclic_manager_order by simp

text \<open>
  C2. When the dependency graph is acyclic and every prerequisite is registered,
  \<^verbatim>\<open>get_execution_order\<close> returns an order in which every declared prerequisite of
  a stage precedes the stage. The order is determined by the registration sequence: any
  sequence of registrations with the same stage names and the same dependency lists, in
  the same sequence, yields the same order.
\<close>

theorem execution_order_respects_dependencies:
  fixes m :: "('d, 'c) StageManager"
  assumes "all_registered m" and "acyclic (dep_edges m)"
  shows "\<exists>order. get_execution_order m = Inr order \<and> distinct order \<and>
           set order = set (stage_names m) \<and> respects_deps m order \<and>
           (\<forall>regs (regs' :: (('d, 'c) PipelineStage \<times> string list option) list).
                m = register_all init_manager regs \<and>
                map registration_key regs' = map registration_key regs \<longrightarrow>
                get_execution_order (register_all init_manager regs') = Inr order)"
proof -
  from get_execution_order_total[OF assms(1)] obtain order where
    o: "get_execution_order m = Inr order" "distinct order" "set order = set (stage_names m)"
    by blast
  have det: "get_execution_order (register_all init_manager regs') = Inr order"
    if eq: "m = register_all init_manager regs"
      and keys: "map registration_key regs' = map registration_key regs"
    for regs regs' :: "(('d, 'c) PipelineStage \<times> string list option) list"
  proof -
    have "stage_names (register_all init_manager regs') = stage_names (register_all init_manager regs) \<and>
          dependencies (register_all init_manager regs') = dependencies (register_all init_manager regs)"
      by (rule register_all_cong[OF keys refl refl])
    with eq have "stage_names (register_all init_manager regs') = stage_names m"
      "dependencies (register_all init_manager regs') = dependencies m"
      by simp_all
    from get_execution_order_cong[OF this] o(1) show ?thesis by simp
  qed
  have r: "respects_deps m order" by (rule order_respects[OF o(1) assms(2)])
  have d: "\<forall>regs (regs' :: (('d, 'c) PipelineStage \<times> string list option) list).
                m = register_all init_manager regs \<and>
                map registration_key regs' = map registration_key regs \<longrightarrow>
                get_execution_order (register_all init_manager regs') = Inr order"
    by (intro allI impI, elim conjE, rule det)
  show ?thesis
    by (intro exI[of _ order] conjI o r d)
qed

text \<open>
  The instance of the specification: A (no dependencies), C (depending on A and B) and
  B (depending on A), registered in the sequence A, C, B, are ordered [A, B, C].
\<close>

theorem execution_order_respects_dependencies_witness:
  "all_registered example_manager \<and> acyclic (dep_edges example_manager) \<and>
   get_execution_order example_manager = Inr [''A'', ''B'', ''C''] \<and>
   respects_deps example_manager [''A'', ''B'', ''C'']"
proof -
  from execution_order_respects_dependencies[OF example_manager_registered example_manager_acyclic]
  obtain order where "get_execution_order example_manager = Inr order"
    "respects_deps example_manager order" by blast
  with example_manager_order have "respects_deps example_manager [''A'', ''B'', ''C'']" by simp
  with example_manager_registered example_manager_acyclic example_manager_order
  show ?thesis by simp
qed

text \<open>
  C3, as the code has it. \<^verbatim>\<open>register_stage\<close> has no duplicate check and cannot fail.
  Registering a stage under a name that is already registered replaces the stage stored
  under that name, keeps the position of the name in the registration order and every
  other stage, and replaces the stored dependency list of the name only when a non-empty
  list is passed.
\<close>

theorem register_existing_name_replaces:
  assumes "name stage \<in> set (stage_names m)"
  shows "stage_names (register_stage m stage deps) = stage_names m \<and>
         map_of (stages (register_stage m stage deps)) (name stage) = Some stage \<and>
         (\<forall>n. n \<noteq> name stage \<longrightarrow>
            map_of (stages (register_stage m stage deps)) n = map_of (stages m) n) \<and>
         dependencies (register_stage m stage deps) =
           (case deps of
              None \<Rightarrow> dependencies m
            | Some ds \<Rightarrow> if ds \<noteq> [] then (dependencies m)(name stage \<mapsto> ds) else dependencies m)"
proof -
  have "stages (register_stage m stage deps) = AList.update (name stage) stage (stages m)"
    by (simp add: register_stage_def Let_def split: option.splits)
  then have "map_of (stages (register_stage m stage deps)) = (map_of (stages m))(name stage \<mapsto> stage)"
    by (simp add: update_conv')
  with assms show ?thesis
    by (simp add: stage_names_register dependencies_register)
qed

theorem register_existing_name_replaces_witness:
  "name (example_stage ''A'') \<in> set (stage_names example_manager) \<and>
   stage_names (register_stage example_manager (example_stage ''A'') (Some [''C''])) =
     [''A'', ''C'', ''B''] \<and>
   deps_get (register_stage example_manager (example_stage ''A'') (Some [''C''])) ''A'' = [''C'']"
proof -
  have h: "name (example_stage ''A'') \<in> set (stage_names example_manager)"
    by (simp add: example_manager_def manager_eval)
  have n: "stage_names example_manager = [''A'', ''C'', ''B'']"
    by (simp add: example_manager_def manager_eval)
  from register_existing_name_replaces[OF h, of "Some [''C'']"] h n show ?thesis
    by (simp add: deps_get_def example_stage_def)
qed

text \<open>
  C3 as stated fails: registering a second, different stage under the registered name A
  succeeds and the stage stored under A is the new one.
\<close>

theorem duplicate_registration_counterexample:
  "map_of (stages (register_stage (register_stage init_manager (example_stage ''A'') None)
      ((example_stage ''A'')\<lparr>config := Some []\<rparr>) None)) ''A''
     = Some ((example_stage ''A'')\<lparr>config := Some []\<rparr>) \<and>
   map_of (stages (register_stage init_manager (example_stage ''A'') None)) ''A''
     = Some (example_stage ''A'') \<and>
   (example_stage ''A'')\<lparr>config := Some []\<rparr> \<noteq> example_stage ''A''"
  by (simp add: register_stage_def init_manager_def example_stage_def)

text \<open>
  C4, as the code has it. \<^verbatim>\<open>register_stage\<close> stores a stage whatever prerequisites
  it declares. When some registered stage declares a prerequisite that is not registered,
  \<^verbatim>\<open>get_execution_order\<close> raises a \<^verbatim>\<open>ValueError\<close> whose message names an
  unregistered prerequisite of a registered stage and nothing else, and
  \<^verbatim>\<open>execute_stages\<close> raises the same error before any call to a stage.
\<close>

theorem unknown_dependency_reported_before_processing:
  assumes "\<not> all_registered m"
  shows "(\<exists>s \<in> set (stage_names m). \<exists>d \<in> set (deps_get m s). d \<notin> set (stage_names m) \<and>
            get_execution_order m = Inl (ValueError (''Unknown dependency: '' @ d)) \<and>
            execute_stages m data context = ([], Inl (ValueError (''Unknown dependency: '' @ d)))) \<and>
         (\<forall>stage deps. map_of (stages (register_stage m stage deps)) (name stage) = Some stage)"
proof -
  from order_error[OF assms] obtain e where
    e: "get_execution_order m = Inl e" "unknown_dependency_error m e" by blast
  then have "execute_stages m data context = ([], Inl e)" by (simp add: execute_stages_def)
  with e have "\<exists>s \<in> set (stage_names m). \<exists>d \<in> set (deps_get m s). d \<notin> set (stage_names m) \<and>
            get_execution_order m = Inl (ValueError (''Unknown dependency: '' @ d)) \<and>
            execute_stages m data context = ([], Inl (ValueError (''Unknown dependency: '' @ d)))"
    unfolding unknown_dependency_error_def by auto
  moreover have "map_of (stages (register_stage m stage deps)) (name stage) = Some stage"
    for stage :: "('a, 'b) PipelineStage" and deps
    by (simp add: register_stage_def Let_def update_conv' split: option.splits)
  ultimately show ?thesis by blast
qed

theorem unknown_dependency_reported_before_processing_witness:
  "\<not> all_registered (dangling_manager ''A'') \<and>
   execute_stages (dangling_manager ''A'') 0 () = ([], Inl (ValueError ''Unknown dependency: B''))"
  using unknown_dependency_reported_before_processing[OF dangling_manager_unregistered, of 0 "()"]
    dangling_manager_unregistered dangling_manager_order(1) by auto

text \<open>
  C4 as stated fails in what the error names: a stage A and a stage C that each declare
  the unregistered prerequisite B produce the same exception, whose message holds B only.
\<close>

theorem unknown_dependency_counterexample:
  "get_execution_order (dangling_manager ''A'') = Inl (ValueError ''Unknown dependency: B'') \<and>
   get_execution_order (dangling_manager ''C'') = Inl (ValueError ''Unknown dependency: B'')"
  using dangling_manager_order by simp

text \<open>
  C10. In every manager state in which every declared prerequisite is registered, with or
  without cycles, \<^verbatim>\<open>get_execution_order\<close> returns a list that holds each registered
  stage name exactly once. (The traversal is a total function: it terminates in every
  state.)
\<close>

theorem execution_order_lists_each_stage_once:
  assumes "all_registered m"
  shows "\<exists>order. get_execution_order m = Inr order \<and> distinct order \<and>
           set order = set (stage_names m)"
  using get_execution_order_total[OF assms] .

theorem execution_order_lists_each_stage_once_witness:
  "all_registered cyclic_manager \<and>
   (\<exists>order. get_execution_order cyclic_manager = Inr order \<and> distinct order \<and>
      set order = set (stage_names cyclic_manager))"
  using execution_order_lists_each_stage_once[OF cyclic_manager_registered]
    cyclic_manager_registered by simp

section \<open>The claims about the stage executor\<close>

lemmas execute_eval = execute_def execute_try_def failing_stage_def strict_stage_def
  recovering_stage_def

text \<open>
  C6. When the processor of a stage raises, \<^verbatim>\<open>execute\<close> makes no further call and
  raises a \<^verbatim>\<open>PipelineStageError\<close> whose message holds the name of the stage and the
  text of the original exception, and whose context is the original exception.
\<close>

theorem processor_failure_wrapped:
  assumes "processor stage data = Inl e"
  shows "execute stage data context =
           ([ProcessorCall (name stage) data],
            Inl (PipelineStageError (''Stage '' @ name stage @ '' failed: '' @ str e) e))"
  using assms by (simp add: execute_def execute_try_def)

theorem processor_failure_wrapped_witness:
  "processor failing_stage 3 = Inl (OtherException ''RuntimeError'' ''boom'') \<and>
   execute failing_stage 3 () =
     ([ProcessorCall ''parse'' 3],
      Inl (PipelineStageError ''Stage parse failed: boom'' (OtherException ''RuntimeError'' ''boom'')))"
proof -
  have h: "processor failing_stage 3 = Inl (OtherException ''RuntimeError'' ''boom'')"
    by (simp add: failing_stage_def)
  from processor_failure_wrapped[OF h, of "()"] h show ?thesis
    by (simp add: failing_stage_def)
qed

text \<open>
  C5, as the code has it. When the processor returns: if the validator accepts the
  result, \<^verbatim>\<open>execute\<close> returns it unchanged; if the validator rejects it and a
  recovery function is set, the recovery function is called once, the validator is not
  called again, and what the recovery function returns is returned; if the validator
  rejects it and no recovery function is set, the \<^verbatim>\<open>ValueError\<close> raised inside the
  \<^verbatim>\<open>try\<close> block is caught by the handler of the same block, and the caller receives
  a \<^verbatim>\<open>PipelineStageError\<close> naming the stage, with that \<^verbatim>\<open>ValueError\<close> as context.
\<close>

theorem execute_validation_contract:
  assumes "processor stage data = Inr result"
  shows "(validator stage result = Inr True \<longrightarrow>
            execute stage data context =
              ([ProcessorCall (name stage) data, ValidatorCall (name stage) result], Inr result)) \<and>
         (\<forall>recover. validator stage result = Inr False \<and> recovery stage = Some recover \<longrightarrow>
            fst (execute stage data context) =
              [ProcessorCall (name stage) data, ValidatorCall (name stage) result,
               RecoveryCall (name stage) result context] \<and>
            (\<forall>out. recover result context = Inr out \<longrightarrow>
               snd (execute stage data context) = Inr out)) \<and>
         (validator stage result = Inr False \<and> recovery stage = None \<longrightarrow>
            execute stage data context =
              ([ProcessorCall (name stage) data, ValidatorCall (name stage) result],
               Inl (PipelineStageError
                      (''Stage '' @ name stage @ '' failed: Stage '' @ name stage @ '' validation failed'')
                      (ValueError (''Stage '' @ name stage @ '' validation failed'')))))"
proof (intro conjI allI impI)
  assume "validator stage result = Inr True"
  with assms show "execute stage data context =
      ([ProcessorCall (name stage) data, ValidatorCall (name stage) result], Inr result)"
    by (simp add: execute_def execute_try_def)
next
  fix recover
  assume a: "validator stage result = Inr False \<and> recovery stage = Some recover"
  with assms show "fst (execute stage data context) =
      [ProcessorCall (name stage) data, ValidatorCall (name stage) result,
       RecoveryCall (name stage) result context]"
    by (simp add: execute_def execute_try_def split: sum.splits)
  fix out assume "recover result context = Inr out"
  with assms a show "snd (execute stage data context) = Inr out"
    by (simp add: execute_def execute_try_def)
next
  assume "validator stage result = Inr False \<and> recovery stage = None"
  with assms show "execute stage data context =
      ([ProcessorCall (name stage) data, ValidatorCall (name stage) result],
       Inl (PipelineStageError
              (''Stage '' @ name stage @ '' failed: Stage '' @ name stage @ '' validation failed'')
              (ValueError (''Stage '' @ name stage @ '' validation failed''))))"
    by (simp add: execute_def execute_try_def)
qed

theorem execute_validation_contract_witness:
  "processor strict_stage 3 = Inr 3 \<and> validator strict_stage 3 = Inr True \<and>
   execute strict_stage 3 () = ([ProcessorCall ''check'' 3, ValidatorCall ''check'' 3], Inr 3) \<and>
   processor recovering_stage 7 = Inr 7 \<and> validator recovering_stage 7 = Inr False \<and>
   execute recovering_stage 7 () =
     ([ProcessorCall ''check'' 7, ValidatorCall ''check'' 7, RecoveryCall ''check'' 7 ()], Inr 0) \<and>
   processor strict_stage 7 = Inr 7 \<and> validator strict_stage 7 = Inr False \<and>
   recovery strict_stage = None \<and>
   execute strict_stage 7 () =
     ([ProcessorCall ''check'' 7, ValidatorCall ''check'' 7],
      Inl (PipelineStageError ''Stage check failed: Stage check validation failed''
             (ValueError ''Stage check validation failed'')))"
proof -
  have p1: "processor strict_stage 3 = Inr 3" and v1: "validator strict_stage 3 = Inr True"
    and p2: "processor recovering_stage 7 = Inr 7"
    and v2: "validator recovering_stage 7 = Inr False"
    and r2: "recovery recovering_stage = Some (\<lambda>result context. Inr 0)"
    and p3: "processor strict_stage 7 = Inr 7" and v3: "validator strict_stage 7 = Inr False"
    and r3: "recovery strict_stage = None"
    by (simp_all add: strict_stage_def recovering_stage_def)
  have n: "name strict_stage = ''check''" "name recovering_stage = ''check''"
    by (simp_all add: strict_stage_def recovering_stage_def)
  from execute_validation_contract[OF p1, of "()"] v1 n
  have a: "execute strict_stage 3 () = ([ProcessorCall ''check'' 3, ValidatorCall ''check'' 3], Inr 3)"
    by simp
  from execute_validation_contract[OF p2, of "()"] v2 r2 n
  have "fst (execute recovering_stage 7 ()) =
      [ProcessorCall ''check'' 7, ValidatorCall ''check'' 7, RecoveryCall ''check'' 7 ()]"
    and "snd (execute recovering_stage 7 ()) = Inr 0"
    by simp_all
  then have b: "execute recovering_stage 7 () =
     ([ProcessorCall ''check'' 7, ValidatorCall ''check'' 7, RecoveryCall ''check'' 7 ()], Inr 0)"
    by (simp add: prod_eq_iff)
  from execute_validation_contract[OF p3, of "()"] v3 r3 n
  have c: "execute strict_stage 7 () =
     ([ProcessorCall ''check'' 7, ValidatorCall ''check'' 7],
      Inl (PipelineStageError ''Stage check failed: Stage check validation failed''
             (ValueError ''Stage check validation failed'')))"
    by simp
  from p1 v1 a p2 v2 b p3 v3 r3 c show ?thesis by simp
qed

text \<open>
  C5 as stated fails in the kind of error: a rejected result without recovery reaches the
  caller as the same \<^verbatim>\<open>PipelineStageError\<close> that a failing processor produces, not as
  a validation error of its own.
\<close>

theorem validation_failure_counterexample:
  "snd (execute strict_stage 7 ()) =
     Inl (PipelineStageError ''Stage check failed: Stage check validation failed''
            (ValueError ''Stage check validation failed'')) \<and>
   snd (execute strict_stage 7 ()) \<noteq> Inl (ValueError ''Stage check validation failed'')"
  by (simp add: execute_eval)


section \<open>The claims about batches and checkpoints\<close>

text \<open>
  C7, what the code does. For a positive batch size \<open>B\<close> and \<open>L\<close> inputs,
  \<^verbatim>\<open>process_batch\<close> cuts the inputs into \<open>\<lceil>L / B\<rceil>\<close> consecutive batches whose
  concatenation is the input list, each non-empty and of at most \<open>B\<close> items, all but the
  last of exactly \<open>B\<close>, as C7 says. With a checkpoint directory set, a non-empty input
  and every item processed successfully, the run ends at the checkpoint of batch 0:
  \<^verbatim>\<open>_save_checkpoint\<close> opens the file of batch 0 and then raises \<^verbatim>\<open>NameError\<close>,
  because \<^verbatim>\<open>pickle\<close> is not imported. One empty file is left and no result is
  returned, where C7 expects one checkpoint record per batch and the results in input order.
\<close>

theorem checkpointed_run_stops_at_first_save:
  assumes "0 < B" and "truthy (checkpoint_dir p)" and "texts \<noteq> []"
    and "\<forall>t \<in> set texts. process_text p t = Inr (f t)"
  shows "\<exists>batches. make_batches texts B = Inr batches \<and>
           int (length batches) = \<lceil>real (length texts) / real_of_int B\<rceil> \<and>
           concat batches = texts \<and>
           (\<forall>b \<in> set batches. 0 < length b \<and> int (length b) \<le> B) \<and>
           (\<forall>b \<in> set (butlast batches). int (length b) = B) \<and>
           process_batch p s texts B parallel fs =
             (fs(checkpoint_path (checkpoint_dir p) 0 \<mapsto> Empty_file), Inl (NameError ''pickle''))"
proof -
  from make_batches_partition[OF assms(1), of texts] obtain batches where
    b: "make_batches texts B = Inr batches"
    and l: "int (length batches) = \<lceil>real (length texts) / real_of_int B\<rceil>"
    and c: "concat batches = texts"
    and s1: "\<forall>b \<in> set batches. 0 < length b \<and> int (length b) \<le> B"
    and s2: "\<forall>b \<in> set (butlast batches). int (length b) = B"
    by blast
  from c assms(3) obtain first rest where fr: "batches = first # rest" by (cases batches) auto
  with c assms(4) have "\<forall>t \<in> set first. process_text p t = Inr (f t)" by auto
  from process_batches_checkpoint_aborts[OF assms(2) this, of s parallel rest 0 "[]" fs] b fr
  have "process_batch p s texts B parallel fs =
      (fs(checkpoint_path (checkpoint_dir p) 0 \<mapsto> Empty_file), Inl (NameError ''pickle''))"
    by (simp add: process_batch_def)
  with b l c s1 s2 show ?thesis by blast
qed

text \<open>
  The instance of the specification: seven inputs with batch size three are cut into
  batches of sizes 3, 3 and 1, and with the checkpoint directory the run leaves one empty
  file and raises, instead of three checkpoint records.
\<close>

theorem checkpointed_run_stops_at_first_save_witness:
  "0 < (3::int) \<and> truthy (checkpoint_dir example_pipeline) \<and> seven \<noteq> [] \<and>
   list_all (\<lambda>t. process_text example_pipeline t = Inr (t @ ''!'')) seven \<and>
   make_batches seven 3 = Inr [[''a'', ''b'', ''c''], [''d'', ''e'', ''f''], [''g'']] \<and>
   process_batch example_pipeline (\<lambda>_. 0) seven 3 True Map.empty =
     ([''ck/checkpoint_0.pkl'' \<mapsto> Empty_file], Inl (NameError ''pickle''))"
proof -
  have h1: "0 < (3::int)" by simp
  have h3: "seven \<noteq> []" by (simp add: seven_def)
  from checkpointed_run_stops_at_first_save[OF h1 example_pipeline_dir h3 seven_succeed,
      where s = "\<lambda>_. 0" and parallel = True and fs = Map.empty]
  have "process_batch example_pipeline (\<lambda>_. 0) seven 3 True Map.empty =
     ((Map.empty :: string files)(checkpoint_path (checkpoint_dir example_pipeline) 0 \<mapsto> Empty_file),
      Inl (NameError ''pickle''))"
    by blast
  moreover have "checkpoint_path (checkpoint_dir example_pipeline) 0 = ''ck/checkpoint_0.pkl''"
    using checkpoint_path_ck_0 by (simp add: example_pipeline_def)
  ultimately have "process_batch example_pipeline (\<lambda>_. 0) seven 3 True Map.empty =
     ([''ck/checkpoint_0.pkl'' \<mapsto> Empty_file], Inl (NameError ''pickle''))" by simp
  moreover have "list_all (\<lambda>t. process_text example_pipeline t = Inr (t @ ''!'')) seven"
    using seven_succeed by (simp only: list_all_iff)
  ultimately show ?thesis using h1 example_pipeline_dir h3 seven_batches by blast
qed

text \<open>
  C8, what the code does. Neither checkpoint function can do what C8 says.
  \<^verbatim>\<open>_save_checkpoint\<close> leaves an empty file and raises \<^verbatim>\<open>NameError\<close> on every call
  (\<^verbatim>\<open>pickle\<close> is not imported), so no batch of a run ever has its results stored;
  \<^verbatim>\<open>_load_checkpoint\<close> raises \<^verbatim>\<open>NameError\<close> on every call (\<^verbatim>\<open>os\<close> is not
  imported), whether or not a file exists: after the run of the seven inputs for index 0,
  and for an index that was never written.
\<close>

theorem checkpoint_functions_raise_name_error:
  "save_checkpoint dir batch_idx results fs =
     (fs(checkpoint_path dir batch_idx \<mapsto> Empty_file), Inl (NameError ''pickle'')) \<and>
   load_checkpoint dir batch_idx fs = Inl (NameError ''os'') \<and>
   load_checkpoint (Some ''ck'') 0
     (fst (process_batch example_pipeline (\<lambda>_. 0) seven 3 True Map.empty)) = Inl (NameError ''os'') \<and>
   load_checkpoint (Some ''ck'') 5 (Map.empty :: string files) = Inl (NameError ''os'')"
  by (simp add: save_checkpoint_raises load_checkpoint_def lookup_os)

text \<open>
  C9, as the code has it. The parallel branch awaits \<^verbatim>\<open>asyncio.gather\<close> without
  \<^verbatim>\<open>return_exceptions\<close> and nothing catches what it raises. For a batch that the run
  reaches without a checkpoint attempt before it (the first batch, or any batch when no
  checkpoint directory is set and the earlier batches succeed): when some item of the batch
  fails, \<^verbatim>\<open>process_batch\<close> as a whole fails with the exception of one failing item of
  that batch, as it was raised. No result of any item is returned, no aggregate error is
  built, and no file is written.
\<close>

theorem parallel_batch_failure_propagates:
  assumes "make_batches texts B = Inr batches" and "n < length batches"
    and "\<forall>t \<in> set (concat (take n batches)). process_text p t = Inr (f t)"
    and "\<exists>t \<in> set (batches ! n). \<exists>e. process_text p t = Inl e"
    and "n = 0 \<or> \<not> truthy (checkpoint_dir p)"
  shows "\<exists>t \<in> set (batches ! n). \<exists>e. process_text p t = Inl e \<and>
           process_batch p s texts B True fs = (fs, Inl e)"
proof (cases "n = 0")
  case True
  with assms(2) obtain first rest where fr: "batches = first # rest" by (cases batches) auto
  with True assms(4) have "\<exists>t \<in> set first. \<exists>e. process_text p t = Inl e" by simp
  from process_batches_first_fails[OF this, of s rest 0 "[]" fs] True fr assms(1)
  show ?thesis by (simp add: process_batch_def)
next
  case False
  with assms(5) have "\<not> truthy (checkpoint_dir p)" by simp
  from process_batches_plain_fails[OF this assms(2,3,4), of s 0 "[]" fs] assms(1)
  show ?thesis by (simp add: process_batch_def)
qed

theorem parallel_batch_failure_propagates_witness:
  "make_batches [''a'', ''b'', ''c'', ''bad''] 2 = Inr [[''a'', ''b''], [''c'', ''bad'']] \<and>
   (1::nat) < length [[''a'', ''b''], [''c'', ''bad'']] \<and>
   list_all (\<lambda>t. process_text plain_pipeline t = Inr (t @ ''!''))
     (concat (take 1 [[''a'', ''b''], [''c'', ''bad'']])) \<and>
   (\<exists>t \<in> set ([[''a'', ''b''], [''c'', ''bad'']] ! 1). \<exists>e. process_text plain_pipeline t = Inl e) \<and>
   \<not> truthy (checkpoint_dir plain_pipeline) \<and>
   process_batch plain_pipeline (\<lambda>_. 0) [''a'', ''b'', ''c'', ''bad''] 2 True Map.empty =
     (Map.empty, Inl (OtherException ''RuntimeError'' ''boom'')) \<and>
   make_batches [''bad'', ''b'', ''c''] 2 = Inr [[''bad'', ''b''], [''c'']] \<and>
   process_batch example_pipeline (\<lambda>_. 0) [''bad'', ''b'', ''c''] 2 True Map.empty =
     (Map.empty, Inl (OtherException ''RuntimeError'' ''boom''))"
proof -
  have h1: "make_batches [''a'', ''b'', ''c'', ''bad''] 2 = Inr [[''a'', ''b''], [''c'', ''bad'']]"
    by (simp add: batch_eval)
  have h2: "(1::nat) < length [[''a'', ''b''], [''c'', ''bad'']]" by simp
  have h3: "\<forall>t \<in> set (concat (take 1 [[''a'', ''b''], [''c'', ''bad'']])).
      process_text plain_pipeline t = Inr (t @ ''!'')"
    by (simp add: plain_pipeline_def example_pipeline_def)
  have h4: "\<exists>t \<in> set ([[''a'', ''b''], [''c'', ''bad'']] ! 1). \<exists>e. process_text plain_pipeline t = Inl e"
    by (simp add: plain_pipeline_def example_pipeline_def)
  have h5: "(1::nat) = 0 \<or> \<not> truthy (checkpoint_dir plain_pipeline)"
    using plain_pipeline_dir by simp
  from parallel_batch_failure_propagates[OF h1 h2 h3 h4 h5, where s = "\<lambda>_. 0" and fs = Map.empty]
  obtain t e where "t \<in> set ([[''a'', ''b''], [''c'', ''bad'']] ! 1)"
    "process_text plain_pipeline t = Inl e"
    "process_batch plain_pipeline (\<lambda>_. 0) [''a'', ''b'', ''c'', ''bad''] 2 True Map.empty
       = (Map.empty, Inl e)"
    by blast
  then have a: "process_batch plain_pipeline (\<lambda>_. 0) [''a'', ''b'', ''c'', ''bad''] 2 True Map.empty =
     (Map.empty, Inl (OtherException ''RuntimeError'' ''boom''))"
    by (auto simp: plain_pipeline_def example_pipeline_def split: if_splits)
  have g1: "make_batches [''bad'', ''b'', ''c''] 2 = Inr [[''bad'', ''b''], [''c'']]"
    by (simp add: batch_eval)
  have g2: "(0::nat) < length [[''bad'', ''b''], [''c'']]" by simp
  have g3: "\<forall>t \<in> set (concat (take 0 [[''bad'', ''b''], [''c'']])).
      process_text example_pipeline t = Inr (t @ ''!'')" by simp
  have g4: "\<exists>t \<in> set ([[''bad'', ''b''], [''c'']] ! 0). \<exists>e. process_text example_pipeline t = Inl e"
    by (simp add: example_pipeline_def)
  have g5: "(0::nat) = 0 \<or> \<not> truthy (checkpoint_dir example_pipeline)" by simp
  from parallel_batch_failure_propagates[OF g1 g2 g3 g4 g5, where s = "\<lambda>_. 0" and fs = Map.empty]
  obtain t' e' where "t' \<in> set ([[''bad'', ''b''], [''c'']] ! 0)"
    "process_text example_pipeline t' = Inl e'"
    "process_batch example_pipeline (\<lambda>_. 0) [''bad'', ''b'', ''c''] 2 True Map.empty
       = (Map.empty, Inl e')"
    by blast
  then have b: "process_batch example_pipeline (\<lambda>_. 0) [''bad'', ''b'', ''c''] 2 True Map.empty =
     (Map.empty, Inl (OtherException ''RuntimeError'' ''boom''))"
    by (auto simp: example_pipeline_def split: if_splits)
  have h3': "list_all (\<lambda>t. process_text plain_pipeline t = Inr (t @ ''!''))
     (concat (take 1 [[''a'', ''b''], [''c'', ''bad'']]))"
    using h3 by (simp only: list_all_iff)
  from h1 h2 h3' h4 plain_pipeline_dir a g1 b show ?thesis by blast
qed

text \<open>
  C9 as stated fails: in one parallel batch of three items of which the second fails, the
  results of the first and the third are lost and the caller receives the exception of the
  second alone.
\<close>

theorem parallel_failure_isolation_counterexample:
  "process_text example_pipeline ''a'' = Inr ''a!'' \<and>
   process_text example_pipeline ''c'' = Inr ''c!'' \<and>
   process_text example_pipeline ''bad'' = Inl (OtherException ''RuntimeError'' ''boom'') \<and>
   process_batch example_pipeline (\<lambda>_. 0) [''a'', ''bad'', ''c''] 3 True Map.empty =
     (Map.empty, Inl (OtherException ''RuntimeError'' ''boom''))"
  by (simp add: batch_eval)

end
